theory Spec2Isabelle
  imports Complex_Main "HOL-Library.Multiset" "HOL-Library.While_Combinator"
    "HOL-Library.Extended_Nat"
begin

section \<open>Common conventions\<close>

text \<open>
  The repository is Python. Python integers are unbounded; every quantity that the code
  only ever builds from non-negative operands (byte values, hash coefficients, capacities,
  array indices) is a \<open>nat\<close>, every quantity the code can drive below zero is an \<open>int\<close>.
  Python's \<open>%\<close> agrees with \<open>mod\<close> on non-negative operands and a positive modulus; a zero
  modulus raises \<open>ZeroDivisionError\<close>, which the models return as a value.

  The helper \<open>object_to_byte_array\<close> of \<open>structures.util\<close> is not part of the sources at
  hand. It is a deterministic function from keys to byte sequences; every hashing function
  below takes it as its first argument \<open>ba\<close>.
\<close>

datatype error =
    ZeroDivisionError
  | IndexError
  | ScheduleExhausted
  | AttributeError
  | TypeError

section \<open>structures/bloom\_filter.py\<close>

text \<open>
  Modelled from the spec: the bit sequence \<open>BitVector\<close> (allocate \<open>n\<close> zero bits, read a bit
  by index, set a bit by index to one). An access outside the allocated range is reported
  as \<open>IndexError\<close>.
\<close>

type_synonym bit_vector = "bool list"

definition bv_allocate :: "nat \<Rightarrow> bit_vector" where
  "bv_allocate n = replicate n False"

definition bv_get_at :: "bit_vector \<Rightarrow> nat \<Rightarrow> error + bool" where
  "bv_get_at bv i = (if i < length bv then Inr (bv ! i) else Inl IndexError)"

definition bv_set_at :: "bit_vector \<Rightarrow> nat \<Rightarrow> error + bit_vector" where
  "bv_set_at bv i = (if i < length bv then Inr (bv[i := True]) else Inl IndexError)"

record bloom_filter =
  bf_capacity :: nat
  bf_data :: bit_vector
  bf_size :: nat
  bf_p :: nat
  bf_a :: nat
  bf_b :: nat

text \<open>
  \<open>BloomFilter.__init__\<close>. The two coefficients are drawn by \<open>random.randint\<close>; they are
  arguments here.
\<close>

definition BloomFilter_init :: "nat \<Rightarrow> nat \<Rightarrow> nat \<Rightarrow> bloom_filter" where
  "BloomFilter_init max_keys a b =
     \<lparr> bf_capacity = max_keys * 5,
       bf_data = bv_allocate (max_keys * 5),
       bf_size = 0,
       bf_p = 4294967311,
       bf_a = a,
       bf_b = b \<rparr>"

text \<open>The accumulation loop shared by \<open>BloomFilter._hash\<close> and \<open>Entry.get_hash\<close>.\<close>

fun pre_hash_loop :: "nat \<Rightarrow> nat list \<Rightarrow> nat" where
  "pre_hash_loop h [] = h"
| "pre_hash_loop h (byte # bytes) = pre_hash_loop ((53 * h + byte) mod (2 ^ 32 - 1)) bytes"

definition bf_hash :: "('k \<Rightarrow> nat list) \<Rightarrow> bloom_filter \<Rightarrow> 'k \<Rightarrow> error + nat" where
  "bf_hash ba bf key =
     (let pre_hash = pre_hash_loop 0 (ba key) in
      if bf_capacity bf = 0 then Inl ZeroDivisionError
      else Inr (((bf_a bf * pre_hash + bf_b bf) mod bf_p bf) mod bf_capacity bf))"

definition bf_insert :: "('k \<Rightarrow> nat list) \<Rightarrow> bloom_filter \<Rightarrow> 'k \<Rightarrow> error + bloom_filter" where
  "bf_insert ba bf key =
     (case bf_hash ba bf key of
        Inl e \<Rightarrow> Inl e
      | Inr hash_value \<Rightarrow>
          (case bv_set_at (bf_data bf) hash_value of
             Inl e \<Rightarrow> Inl e
           | Inr d \<Rightarrow> Inr (bf\<lparr> bf_data := d, bf_size := bf_size bf + 1 \<rparr>)))"

definition bf_dunder_contains :: "('k \<Rightarrow> nat list) \<Rightarrow> bloom_filter \<Rightarrow> 'k \<Rightarrow> error + bool" where
  "bf_dunder_contains ba bf key =
     (case bf_hash ba bf key of
        Inl e \<Rightarrow> Inl e
      | Inr hash_value \<Rightarrow>
          (case bv_get_at (bf_data bf) hash_value of
             Inl e \<Rightarrow> Inl e
           | Inr bt \<Rightarrow> (if bt then Inr True else Inr False)))"

definition bf_contains :: "('k \<Rightarrow> nat list) \<Rightarrow> bloom_filter \<Rightarrow> 'k \<Rightarrow> error + bool" where
  "bf_contains ba bf key = bf_dunder_contains ba bf key"

text \<open>A client that inserts a list of keys one after the other; the first error stops it.\<close>

fun bf_insert_all :: "('k \<Rightarrow> nat list) \<Rightarrow> bloom_filter \<Rightarrow> 'k list \<Rightarrow> error + bloom_filter" where
  "bf_insert_all ba bf [] = Inr bf"
| "bf_insert_all ba bf (k # ks) =
     (case bf_insert ba bf k of Inl e \<Rightarrow> Inl e | Inr bf' \<Rightarrow> bf_insert_all ba bf' ks)"

section \<open>structures/entry.py: the Entry type\<close>

text \<open>
  An \<open>Entry\<close> holds a key and a value; the accessors keep their names. Equality of
  entries in the source (\<open>__eq__\<close>) compares keys only and is written out as a comparison
  of \<open>get_key\<close> wherever the code relies on it.
\<close>

datatype ('k, 'v) entry = Entry (get_key: 'k) (get_value: 'v)

text \<open>\<open>Entry.get_hash\<close>: the accumulation loop over the key's bytes, started at zero.\<close>

definition get_hash :: "('k \<Rightarrow> nat list) \<Rightarrow> ('k, 'v) entry \<Rightarrow> nat" where
  "get_hash ba e = pre_hash_loop 0 (ba (get_key e))"

definition pair_of :: "('k, 'v) entry \<Rightarrow> 'k \<times> 'v" where
  "pair_of e = (get_key e, get_value e)"

section \<open>structures/pqueue.py\<close>

text \<open>
  The queue keeps a \<open>DynamicArray\<close> of entries, read as an implicit binary tree, and the
  counter of the FIFO mode. Modelled from the spec: the growable sequence \<open>DynamicArray\<close>
  (append, read and write by position, size, removal at a position) is a list.
  Priorities are any linearly ordered type (the algorithms use integers and the infinite
  distance of Dijkstra's initialisation).

  The private loops take an index and read the array at that index and at its parent or
  children only. The sift-down loop reads an element only after the test that its child
  index is below \<open>sz\<close>, and every caller passes \<open>sz \<le> length arr\<close>; the sift-up loop is
  entered at the last index of a non-empty array. So no read leaves the array.
\<close>

record ('p, 'v) priority_queue =
  pq_arr :: "('p, 'v) entry list"
  pq_max_priority :: nat

definition PriorityQueue_init :: "('p, 'v) priority_queue" where
  "PriorityQueue_init = \<lparr> pq_arr = [], pq_max_priority = 0 \<rparr>"

definition pq_parent :: "nat \<Rightarrow> nat" where
  "pq_parent ix = (if ix = 0 then 0 else (ix - 1) div 2)"

text \<open>The tuple assignment \<open>arr[i], arr[j] = arr[j], arr[i]\<close>.\<close>

definition swap :: "'a list \<Rightarrow> nat \<Rightarrow> nat \<Rightarrow> 'a list" where
  "swap arr i j = arr[i := arr ! j, j := arr ! i]"

text \<open>The \<open>while\<close> loop of \<open>insert\<close>: swap the new entry upwards while it is smaller than its parent.\<close>

function up_heap :: "('p::linorder, 'v) entry list \<Rightarrow> nat \<Rightarrow> ('p, 'v) entry list" where
  "up_heap arr ix =
     (if ix > 0 \<and> get_key (arr ! ix) < get_key (arr ! pq_parent ix)
      then up_heap (swap arr ix (pq_parent ix)) (pq_parent ix)
      else arr)"
  by pat_completeness auto
termination
  by (relation "measure (\<lambda>(arr, ix). ix)") (auto simp: pq_parent_def)

declare up_heap.simps [simp del]

definition pq_insert :: "('p::linorder, 'v) priority_queue \<Rightarrow> 'p \<Rightarrow> 'v \<Rightarrow> ('p, 'v) priority_queue" where
  "pq_insert q priority data =
     (let new = Entry priority data;
          arr = pq_arr q @ [new];
          ix = length arr - 1
      in q\<lparr> pq_arr := up_heap arr ix \<rparr>)"

definition insert_fifo :: "(nat, 'v) priority_queue \<Rightarrow> 'v \<Rightarrow> (nat, 'v) priority_queue" where
  "insert_fifo q data =
     (pq_insert q (pq_max_priority q) data)\<lparr> pq_max_priority := pq_max_priority q + 1 \<rparr>"

definition pq_get_size :: "('p, 'v) priority_queue \<Rightarrow> nat" where
  "pq_get_size q = length (pq_arr q)"

definition pq_is_empty :: "('p, 'v) priority_queue \<Rightarrow> bool" where
  "pq_is_empty q \<longleftrightarrow> pq_arr q = []"

definition get_min_priority :: "('p, 'v) priority_queue \<Rightarrow> 'p option" where
  "get_min_priority q = (if pq_is_empty q then None else Some (get_key (pq_arr q ! 0)))"

definition get_min_value :: "('p, 'v) priority_queue \<Rightarrow> 'v option" where
  "get_min_value q = (if pq_is_empty q then None else Some (get_value (pq_arr q ! 0)))"

text \<open>
  One round of the loop body of \<open>_down_heap\<close>: the index, among \<open>cur\<close> and its children
  below \<open>sz\<close>, that the two \<open>if\<close> statements select.
\<close>

definition smallest_of :: "('p::linorder, 'v) entry list \<Rightarrow> nat \<Rightarrow> nat \<Rightarrow> nat" where
  "smallest_of arr cur sz =
     (let left = cur * 2 + 1;
          right = cur * 2 + 2;
          smallest = cur;
          smallest = (if left < sz \<and> get_key (arr ! smallest) > get_key (arr ! left)
                      then left else smallest);
          smallest = (if right < sz \<and> get_key (arr ! smallest) > get_key (arr ! right)
                      then right else smallest)
      in smallest)"

lemma smallest_of_cases:
  "smallest_of arr cur sz = cur \<or>
   (smallest_of arr cur sz = cur * 2 + 1 \<and> cur * 2 + 1 < sz) \<or>
   (smallest_of arr cur sz = cur * 2 + 2 \<and> cur * 2 + 2 < sz)"
  by (simp add: smallest_of_def Let_def)

function down_heap :: "('p::linorder, 'v) entry list \<Rightarrow> nat \<Rightarrow> nat \<Rightarrow> ('p, 'v) entry list" where
  "down_heap arr cur sz =
     (let smallest = smallest_of arr cur sz
      in if smallest \<noteq> cur then down_heap (swap arr cur smallest) smallest sz else arr)"
  by pat_completeness auto
termination
proof (relation "measure (\<lambda>(arr, cur, sz). sz - cur)", goal_cases)
  case 1
  show ?case by simp
next
  case (2 arr cur sz x)
  with smallest_of_cases[of arr cur sz] show ?case by auto
qed

declare down_heap.simps [simp del]

lemma swap_length [simp]: "length (swap arr i j) = length arr"
  by (simp add: swap_def)

lemma down_heap_length [simp]: "length (down_heap arr cur n) = length arr"
proof (induction arr cur n rule: down_heap.induct)
  case (1 arr cur sz)
  show ?case
  proof (cases "smallest_of arr cur sz = cur")
    case True
    then show ?thesis by (subst down_heap.simps) simp
  next
    case False
    with 1[OF refl False] show ?thesis by (subst down_heap.simps) (simp add: Let_def)
  qed
qed

text \<open>
  \<open>remove_min\<close> overwrites the root with the last entry, removes the last position and runs
  the same loop as \<open>_down_heap\<close> from index 0 with the new size (the source repeats the
  loop's text there).
\<close>

definition remove_min :: "('p::linorder, 'v) priority_queue \<Rightarrow> 'v option \<times> ('p, 'v) priority_queue" where
  "remove_min q =
     (if pq_is_empty q then (None, q)
      else
        let result = pq_arr q ! 0;
            arr = (pq_arr q)[0 := pq_arr q ! (pq_get_size q - 1)];
            arr = butlast arr
        in (Some (get_value result), q\<lparr> pq_arr := down_heap arr 0 (length arr) \<rparr>))"

text \<open>
  \<open>for i in range(n // 2 - 1, -1, -1): self._down_heap(i, n)\<close>; the counter of the
  model is \<open>i + 1\<close>.
\<close>

fun ip_build_loop :: "('p::linorder, 'v) entry list \<Rightarrow> nat \<Rightarrow> nat \<Rightarrow> ('p, 'v) entry list" where
  "ip_build_loop arr n 0 = arr"
| "ip_build_loop arr n (Suc i) = ip_build_loop (down_heap arr i n) n i"

definition ip_build :: "('p::linorder, 'v) priority_queue \<Rightarrow> ('p, 'v) entry list \<Rightarrow> ('p, 'v) priority_queue" where
  "ip_build q input_list =
     (let n = length input_list
      in q\<lparr> pq_arr := ip_build_loop input_list n (n div 2) \<rparr>)"

text \<open>
  \<open>for i in range(n - 1, 0, -1)\<close>: swap the root with position \<open>i\<close>, then sift down in
  the first \<open>i\<close> positions. \<open>sort\<close> returns the array.
\<close>

fun sort_loop :: "('p::linorder, 'v) entry list \<Rightarrow> nat \<Rightarrow> ('p, 'v) entry list" where
  "sort_loop arr 0 = arr"
| "sort_loop arr (Suc i) = sort_loop (down_heap (swap arr 0 (Suc i)) 0 (Suc i)) i"

definition pq_sort :: "('p::linorder, 'v) priority_queue \<Rightarrow> ('p, 'v) entry list" where
  "pq_sort q =
     (let n = pq_get_size q;
          arr = ip_build_loop (pq_arr q) n (n div 2)
      in sort_loop arr (n - 1))"

text \<open>
  Clients of the queue: inserting a list of (priority, value) pairs one by one, and
  draining the queue by \<open>remove_min\<close> until it is empty, recording each value with the
  priority that \<open>get_min_priority\<close> reported just before.
\<close>

function drain :: "('p::linorder, 'v) priority_queue \<Rightarrow> ('p \<times> 'v) list" where
  "drain q =
     (if pq_is_empty q then []
      else (case (get_min_priority q, remove_min q) of
              (Some p, (Some v, q')) \<Rightarrow> (p, v) # drain q'
            | _ \<Rightarrow> []))"
  by pat_completeness auto
termination
  by (relation "measure (\<lambda>q. length (pq_arr q))")
     (auto simp: remove_min_def pq_is_empty_def Let_def split: if_splits)

declare drain.simps [simp del]

fun pq_insert_all :: "('p::linorder, 'v) priority_queue \<Rightarrow> ('p \<times> 'v) list \<Rightarrow> ('p, 'v) priority_queue" where
  "pq_insert_all q [] = q"
| "pq_insert_all q ((p, v) # xs) = pq_insert_all (pq_insert q p v) xs"

section \<open>structures/map.py\<close>

text \<open>
  Modelled from the spec: the doubly linked list \<open>DoublyLinkedList\<close> of a bucket (front
  insertion, head traversal, linear find-and-remove and find-and-return, all keyed by
  entry-key equality) is the list of its entries from the head.
\<close>

type_synonym ('k, 'v) dll = "('k, 'v) entry list"

definition insert_to_front :: "('k, 'v) dll \<Rightarrow> ('k, 'v) entry \<Rightarrow> ('k, 'v) dll" where
  "insert_to_front chain e = e # chain"

fun find_and_remove_element :: "('k, 'v) dll \<Rightarrow> 'k \<Rightarrow> ('k, 'v) dll" where
  "find_and_remove_element [] key = []"
| "find_and_remove_element (e # chain) key =
     (if get_key e = key then chain else e # find_and_remove_element chain key)"

fun find_and_return_element :: "('k, 'v) dll \<Rightarrow> 'k \<Rightarrow> ('k, 'v) entry option" where
  "find_and_return_element [] key = None"
| "find_and_return_element (e # chain) key =
     (if get_key e = key then Some e else find_and_return_element chain key)"

text \<open>
  The state of a \<open>Map\<close>. A bucket slot is \<open>None\<close> until its first insertion and holds a
  chain afterwards (possibly empty again after removals). The size can be driven below
  zero by \<open>remove\<close> and is an integer.

  The load factor is the Python float \<open>size / capacity\<close>, compared with the float \<open>0.9\<close>.
  It is modelled by the exact quotient, compared with \<open>9/10\<close>: the capacities are 557 and
  the listed primes, none of them a multiple of 10, so the exact quotient is never
  \<open>9/10\<close> and differs from it by at least \<open>1 / (10 * 3000061)\<close>, far more than the
  rounding of the division and of the constant; the float comparison and the exact one
  agree.

  In every state that the constructor and the methods produce the capacity is positive and
  equals the number of bucket slots, so \<open>_hash\<close> never divides by zero and the bucket index
  it returns is in range (\<open>m_invar\<close> below).
\<close>

record ('k, 'v) hash_map =
  m_capacity :: nat
  m_size :: int
  m_load_factor :: rat
  m_resizes_done :: nat
  m_buckets :: "('k, 'v) dll option list"
  m_p :: nat
  m_a :: nat
  m_b :: nat
  m_primes :: "nat list"

text \<open>\<open>Map.__init__\<close>; the two random coefficients are arguments.\<close>

definition Map_init :: "nat \<Rightarrow> nat \<Rightarrow> ('k, 'v) hash_map" where
  "Map_init a b =
     \<lparr> m_capacity = 557,
       m_size = 0,
       m_load_factor = 0,
       m_resizes_done = 0,
       m_buckets = replicate 557 None,
       m_p = 4294967311,
       m_a = a,
       m_b = b,
       m_primes = [1667, 4597, 7741, 14411, 52361, 107581, 313297, 619331, 828547,
                   999983, 1513199, 3000061] \<rparr>"

definition m_hash :: "('k \<Rightarrow> nat list) \<Rightarrow> ('k, 'v) hash_map \<Rightarrow> 'k \<Rightarrow> nat" where
  "m_hash ba m key =
     (let pre_hash = pre_hash_loop 0 (ba key)
      in ((m_a m * pre_hash + m_b m) mod m_p m) mod m_capacity m)"

text \<open>The traversal of \<open>_exists\<close>: is there an entry with this key in the chain?\<close>

fun chain_exists :: "('k, 'v) dll \<Rightarrow> 'k \<Rightarrow> bool" where
  "chain_exists [] key = False"
| "chain_exists (e # chain) key = (if get_key e = key then True else chain_exists chain key)"

definition m_exists :: "('k \<Rightarrow> nat list) \<Rightarrow> ('k, 'v) hash_map \<Rightarrow> 'k \<Rightarrow> bool" where
  "m_exists ba m key =
     (case m_buckets m ! m_hash ba m key of
        None \<Rightarrow> False
      | Some chain \<Rightarrow> chain_exists chain key)"

text \<open>
  The last branch of \<open>insert\<close>: walk the chain, overwrite the value of the first entry with
  the key and return its old value. \<open>__setitem__\<close> walks the whole chain without stopping
  (\<open>update_all\<close>).
\<close>

fun update_first :: "('k, 'v) dll \<Rightarrow> ('k, 'v) entry \<Rightarrow> ('k, 'v) dll \<times> 'v option" where
  "update_first [] entry = ([], None)"
| "update_first (existing # chain) entry =
     (if get_key existing = get_key entry
      then (Entry (get_key existing) (get_value entry) # chain, Some (get_value existing))
      else (case update_first chain entry of (chain', r) \<Rightarrow> (existing # chain', r)))"

fun update_all :: "('k, 'v) dll \<Rightarrow> ('k, 'v) entry \<Rightarrow> ('k, 'v) dll" where
  "update_all [] entry = []"
| "update_all (existing # chain) entry =
     (if get_key existing = get_key entry
      then Entry (get_key existing) (get_value entry) # update_all chain entry
      else existing # update_all chain entry)"

text \<open>\<open>insert\<close> after its resize test: the three branches on the bucket and on \<open>_exists\<close>.\<close>

definition insert_here ::
  "('k \<Rightarrow> nat list) \<Rightarrow> ('k, 'v) hash_map \<Rightarrow> ('k, 'v) entry \<Rightarrow> ('k, 'v) hash_map \<times> 'v option" where
  "insert_here ba m entry =
     (let hash_value = m_hash ba m (get_key entry) in
      case m_buckets m ! hash_value of
        None \<Rightarrow>
          (m\<lparr> m_buckets := (m_buckets m)[hash_value := Some (insert_to_front [] entry)],
              m_size := m_size m + 1,
              m_load_factor := of_int (m_size m + 1) / of_nat (m_capacity m) \<rparr>, None)
      | Some current_bucket \<Rightarrow>
          if \<not> m_exists ba m (get_key entry)
          then (m\<lparr> m_buckets := (m_buckets m)[hash_value := Some (insert_to_front current_bucket entry)],
                   m_size := m_size m + 1,
                   m_load_factor := of_int (m_size m + 1) / of_nat (m_capacity m) \<rparr>, None)
          else (case update_first current_bucket entry of
                  (chain', old_value) \<Rightarrow>
                    (m\<lparr> m_buckets := (m_buckets m)[hash_value := Some chain'] \<rparr>, old_value)))"

text \<open>
  The entries that the two nested loops of \<open>_resize\<close> visit: bucket by bucket, each chain
  from its head.
\<close>

definition all_entries :: "('k, 'v) dll option list \<Rightarrow> ('k, 'v) entry list" where
  "all_entries buckets = concat (map (\<lambda>b. case b of None \<Rightarrow> [] | Some chain \<Rightarrow> chain) buckets)"

text \<open>
  \<open>insert\<close> calls \<open>_resize\<close> when the load factor has reached 0.9, and \<open>_resize\<close> re-inserts
  every entry with \<open>insert\<close>, which can resize again (the size restarts from zero, but the
  map can hold more entries than the size says). The recursion is bounded by the schedule
  of primes: the fuel counts the resizes that may still nest, and running out of it is the
  result \<open>None\<close>. \<open>m_insert\<close> starts with one more than the number of primes left, which
  is always enough (\<open>m_insert_total\<close>). A resize that finds the schedule exhausted fails in
  the source (the missing capacity cannot be divided by); that is the error
  \<open>ScheduleExhausted\<close>.
\<close>

fun insert_fuel ::
    "nat \<Rightarrow> ('k \<Rightarrow> nat list) \<Rightarrow> ('k, 'v) hash_map \<Rightarrow> ('k, 'v) entry
      \<Rightarrow> (error + ('k, 'v) hash_map \<times> 'v option) option"
  and resize_fuel ::
    "nat \<Rightarrow> ('k \<Rightarrow> nat list) \<Rightarrow> ('k, 'v) hash_map \<Rightarrow> (error + ('k, 'v) hash_map) option"
  and rehash_fuel ::
    "nat \<Rightarrow> ('k \<Rightarrow> nat list) \<Rightarrow> ('k, 'v) hash_map \<Rightarrow> ('k, 'v) entry list
      \<Rightarrow> (error + ('k, 'v) hash_map) option"
where
  "insert_fuel fuel ba m entry =
     (if m_load_factor m \<ge> 9 / 10
      then (case fuel of
              0 \<Rightarrow> None
            | Suc fuel' \<Rightarrow>
                (case resize_fuel fuel' ba m of
                   None \<Rightarrow> None
                 | Some (Inl e) \<Rightarrow> Some (Inl e)
                 | Some (Inr m') \<Rightarrow> Some (Inr (insert_here ba m' entry))))
      else Some (Inr (insert_here ba m entry)))"
| "resize_fuel fuel ba m =
     (if m_resizes_done m < length (m_primes m)
      then
        let old_buckets = m_buckets m;
            capacity = m_primes m ! m_resizes_done m;
            m1 = m\<lparr> m_capacity := capacity,
                     m_load_factor := of_int (m_size m) / of_nat capacity,
                     m_resizes_done := m_resizes_done m + 1,
                     m_buckets := replicate capacity None,
                     m_size := 0 \<rparr>
        in rehash_fuel fuel ba m1 (all_entries old_buckets)
      else Some (Inl ScheduleExhausted))"
| "rehash_fuel fuel ba m [] = Some (Inr m)"
| "rehash_fuel fuel ba m (entry # entries) =
     (case insert_fuel fuel ba m entry of
        None \<Rightarrow> None
      | Some (Inl e) \<Rightarrow> Some (Inl e)
      | Some (Inr (m', r)) \<Rightarrow> rehash_fuel fuel ba m' entries)"


definition m_insert ::
  "('k \<Rightarrow> nat list) \<Rightarrow> ('k, 'v) hash_map \<Rightarrow> ('k, 'v) entry
     \<Rightarrow> (error + ('k, 'v) hash_map \<times> 'v option) option" where
  "m_insert ba m entry = insert_fuel (Suc (length (m_primes m) - m_resizes_done m)) ba m entry"

definition insert_kv ::
  "('k \<Rightarrow> nat list) \<Rightarrow> ('k, 'v) hash_map \<Rightarrow> 'k \<Rightarrow> 'v
     \<Rightarrow> (error + ('k, 'v) hash_map \<times> 'v option) option" where
  "insert_kv ba m key val = m_insert ba m (Entry key val)"

definition m_setitem :: "('k \<Rightarrow> nat list) \<Rightarrow> ('k, 'v) hash_map \<Rightarrow> 'k \<Rightarrow> 'v \<Rightarrow> ('k, 'v) hash_map" where
  "m_setitem ba m key val =
     (let entry = Entry key val;
          hash_value = m_hash ba m (get_key entry) in
      case m_buckets m ! hash_value of
        None \<Rightarrow>
          m\<lparr> m_buckets := (m_buckets m)[hash_value := Some (insert_to_front [] entry)],
             m_size := m_size m + 1,
             m_load_factor := of_int (m_size m + 1) / of_nat (m_capacity m) \<rparr>
      | Some current_bucket \<Rightarrow>
          if \<not> m_exists ba m (get_key entry)
          then m\<lparr> m_buckets := (m_buckets m)[hash_value := Some (insert_to_front current_bucket entry)],
                  m_size := m_size m + 1,
                  m_load_factor := of_int (m_size m + 1) / of_nat (m_capacity m) \<rparr>
          else m\<lparr> m_buckets := (m_buckets m)[hash_value := Some (update_all current_bucket entry)] \<rparr>)"

definition m_remove :: "('k \<Rightarrow> nat list) \<Rightarrow> ('k, 'v) hash_map \<Rightarrow> 'k \<Rightarrow> ('k, 'v) hash_map" where
  "m_remove ba m key =
     (let hash_value = m_hash ba m key in
      case m_buckets m ! hash_value of
        None \<Rightarrow> m
      | Some current_bucket \<Rightarrow>
          m\<lparr> m_buckets := (m_buckets m)[hash_value := Some (find_and_remove_element current_bucket key)],
             m_size := m_size m - 1,
             m_load_factor := of_int (m_size m - 1) / of_nat (m_capacity m) \<rparr>)"

definition m_getitem :: "('k \<Rightarrow> nat list) \<Rightarrow> ('k, 'v) hash_map \<Rightarrow> 'k \<Rightarrow> 'v option" where
  "m_getitem ba m key =
     (let hash_value = m_hash ba m key;
          current_bucket = m_buckets m ! hash_value in
      if m_exists ba m key
      then (case current_bucket of
              None \<Rightarrow> None
            | Some chain \<Rightarrow>
                (case find_and_return_element chain key of
                   None \<Rightarrow> None
                 | Some entry_found \<Rightarrow> Some (get_value entry_found)))
      else None)"

definition m_find :: "('k \<Rightarrow> nat list) \<Rightarrow> ('k, 'v) hash_map \<Rightarrow> 'k \<Rightarrow> 'v option" where
  "m_find ba m key = m_getitem ba m key"

definition m_get_size :: "('k, 'v) hash_map \<Rightarrow> int" where
  "m_get_size m = m_size m"

definition get_load_factor :: "('k, 'v) hash_map \<Rightarrow> rat" where
  "get_load_factor m = m_load_factor m"

definition m_is_empty :: "('k, 'v) hash_map \<Rightarrow> bool" where
  "m_is_empty m \<longleftrightarrow> (if m_size m = 0 then True else False)"

definition get_keys :: "('k, 'v) hash_map \<Rightarrow> 'k list" where
  "get_keys m = map get_key (all_entries (m_buckets m))"

text \<open>A client: a sequence of calls on one map; the first error stops the run.\<close>

datatype ('k, 'v) map_op = Insert 'k 'v | InsertKV 'k 'v | SetItem 'k 'v | Remove 'k

fun m_run ::
  "('k \<Rightarrow> nat list) \<Rightarrow> ('k, 'v) hash_map \<Rightarrow> ('k, 'v) map_op list \<Rightarrow> (error + ('k, 'v) hash_map) option" where
  "m_run ba m [] = Some (Inr m)"
| "m_run ba m (Insert k v # ops) =
     (case m_insert ba m (Entry k v) of
        None \<Rightarrow> None
      | Some (Inl e) \<Rightarrow> Some (Inl e)
      | Some (Inr (m', r)) \<Rightarrow> m_run ba m' ops)"
| "m_run ba m (InsertKV k v # ops) =
     (case insert_kv ba m k v of
        None \<Rightarrow> None
      | Some (Inl e) \<Rightarrow> Some (Inl e)
      | Some (Inr (m', r)) \<Rightarrow> m_run ba m' ops)"
| "m_run ba m (SetItem k v # ops) = m_run ba (m_setitem ba m k v) ops"
| "m_run ba m (Remove k # ops) = m_run ba (m_remove ba m k) ops"





section \<open>Results of code that can fail\<close>

text \<open>
  A computation that uses the map either runs out of the fuel of the model (\<open>None\<close>, which
  never happens from a state of the map, see \<open>m_insert_total\<close>), raises (\<open>Some (Inl e)\<close>) or
  returns (\<open>Some (Inr x)\<close>).
\<close>

type_synonym 'a result = "(error + 'a) option"

definition bind_res :: "'a result \<Rightarrow> ('a \<Rightarrow> 'b result) \<Rightarrow> 'b result" where
  "bind_res x f = (case x of None \<Rightarrow> None | Some (Inl e) \<Rightarrow> Some (Inl e) | Some (Inr a) \<Rightarrow> f a)"

definition ok :: "'a \<Rightarrow> 'a result" where
  "ok x = Some (Inr x)"

definition raise :: "error \<Rightarrow> 'a result" where
  "raise e = Some (Inl e)"

text \<open>A \<open>for\<close> loop over a list of indices or of elements, whose body can fail.\<close>

fun for_loop :: "'a list \<Rightarrow> ('a \<Rightarrow> 's \<Rightarrow> 's result) \<Rightarrow> 's \<Rightarrow> 's result" where
  "for_loop [] body s = ok s"
| "for_loop (i # idxs) body s = bind_res (body i s) (for_loop idxs body)"

section \<open>algorithms/problems.py: chain\_reaction\<close>

text \<open>
  A \<open>Compound\<close> has integer coordinates, a radius and an integer identifier. The radius is
  a Python float, which the model reads as the real number it denotes. The squared distance
  \<open>dx ** 2 + dy ** 2\<close> is an exact integer; the code takes its root in floating point,
  \<open>(...) ** 0.5\<close>. The model is parameterised by this operation, a function \<open>rt\<close> from the
  integer to the result, so that nothing is assumed about how it rounds.
\<close>

record compound =
  c_x :: int
  c_y :: int
  c_r :: real
  c_cid :: int

definition get_coordinates :: "compound \<Rightarrow> int \<times> int" where
  "get_coordinates c = (c_x c, c_y c)"

definition get_radius :: "compound \<Rightarrow> real" where
  "get_radius c = c_r c"

definition get_compound_id :: "compound \<Rightarrow> int" where
  "get_compound_id c = c_cid c"

definition distance :: "(int \<Rightarrow> real) \<Rightarrow> compound \<Rightarrow> compound \<Rightarrow> real" where
  "distance rt c0 c1 =
     rt ((fst (get_coordinates c0) - fst (get_coordinates c1))\<^sup>2 +
         (snd (get_coordinates c0) - snd (get_coordinates c1))\<^sup>2)"

text \<open>
  The adjacency map stores, for a compound identifier, a \<open>DynamicArray\<close> of identifiers. The
  arrays are mutable objects that the code appends to through the reference that \<open>find\<close>
  returns, during the construction and again during every propagation. The model keeps
  the arrays in a store, a list indexed by address; the map holds addresses. A reference
  obtained from the map is always the address of an allocated array.
\<close>

type_synonym store = "int list list"
type_synonym adjacency = "(int, nat) hash_map"

definition new_array :: "store \<Rightarrow> nat \<times> store" where
  "new_array st = (length st, st @ [[]])"

definition append_at :: "store \<Rightarrow> nat \<Rightarrow> int \<Rightarrow> store" where
  "append_at st addr x = st[addr := st ! addr @ [x]]"

text \<open>\<open>adjacency_list.insert_kv(cid, DynamicArray())\<close>\<close>

definition insert_new_array ::
  "(int \<Rightarrow> nat list) \<Rightarrow> int \<Rightarrow> adjacency \<times> store \<Rightarrow> (adjacency \<times> store) result" where
  "insert_new_array ba cid s =
     (case s of (adj, st) \<Rightarrow>
        (case new_array st of (addr, st') \<Rightarrow>
           bind_res (insert_kv ba adj cid addr) (\<lambda>(adj', old). ok (adj', st'))))"

text \<open>\<open>adjacency_list.find(cid).append(x)\<close>; \<open>find\<close> returning \<open>None\<close> makes the call fail.\<close>

definition find_append ::
  "(int \<Rightarrow> nat list) \<Rightarrow> int \<Rightarrow> int \<Rightarrow> adjacency \<times> store \<Rightarrow> (adjacency \<times> store) result" where
  "find_append ba cid x s =
     (case s of (adj, st) \<Rightarrow>
        (case m_find ba adj cid of
           None \<Rightarrow> raise AttributeError
         | Some addr \<Rightarrow> ok (adj, append_at st addr x)))"

definition build_inner ::
  "(int \<Rightarrow> nat list) \<Rightarrow> (int \<Rightarrow> real) \<Rightarrow> compound list \<Rightarrow> nat \<Rightarrow> nat \<Rightarrow> adjacency \<times> store
     \<Rightarrow> (adjacency \<times> store) result" where
  "build_inner ba rt compounds i j s =
     (if i \<noteq> j then
        let c0 = compounds ! i;
            c1 = compounds ! j;
            d = distance rt c0 c1
        in bind_res
             (if d \<le> get_radius c0
              then find_append ba (get_compound_id c0) (get_compound_id c1) s
              else ok s)
             (\<lambda>s. if d \<le> get_radius c1
                  then bind_res
                         (if m_find ba (fst s) (get_compound_id c1) = None
                          then insert_new_array ba (get_compound_id c1) s
                          else ok s)
                         (find_append ba (get_compound_id c1) (get_compound_id c0))
                  else ok s)
      else ok s)"

definition build_outer ::
  "(int \<Rightarrow> nat list) \<Rightarrow> (int \<Rightarrow> real) \<Rightarrow> compound list \<Rightarrow> nat \<Rightarrow> adjacency \<times> store
     \<Rightarrow> (adjacency \<times> store) result" where
  "build_outer ba rt compounds i s =
     bind_res (insert_new_array ba (get_compound_id (compounds ! i)) s)
       (for_loop [0..<length compounds] (build_inner ba rt compounds i))"

definition build_adjacency ::
  "(int \<Rightarrow> nat list) \<Rightarrow> (int \<Rightarrow> real) \<Rightarrow> nat \<Rightarrow> nat \<Rightarrow> compound list
     \<Rightarrow> (adjacency \<times> store) result" where
  "build_adjacency ba rt a b compounds =
     for_loop [0..<length compounds] (build_outer ba rt compounds) (Map_init a b, [])"

text \<open>
  Modelled from the spec: reading and writing the \<open>visited\<close> sequence by position. A
  position outside the sequence is reported as \<open>IndexError\<close>, so that the model can say
  that every access is within bounds.
\<close>

definition da_get_at :: "'a list \<Rightarrow> int \<Rightarrow> 'a result" where
  "da_get_at xs i = (if 0 \<le> i \<and> i < int (length xs) then ok (xs ! nat i) else raise IndexError)"

definition da_set_at :: "'a list \<Rightarrow> int \<Rightarrow> 'a \<Rightarrow> 'a list result" where
  "da_set_at xs i v = (if 0 \<le> i \<and> i < int (length xs) then ok (xs[nat i := v]) else raise IndexError)"

text \<open>The innermost loop: is \<open>triggered\<close> already in \<open>neighbours\<close>?\<close>

fun already_triggered :: "int list \<Rightarrow> int \<Rightarrow> bool" where
  "already_triggered [] triggered = False"
| "already_triggered (x # neighbours) triggered =
     (if x = triggered then True else already_triggered neighbours triggered)"

text \<open>
  The loop over the positions \<open>j\<close> of \<open>neighbour_triggers\<close> (array at \<open>ta\<close>), appending to
  \<open>neighbours\<close> (array at \<open>na\<close>) what is not in it yet. The two addresses may coincide.
\<close>

fun merge_loop :: "nat \<Rightarrow> nat \<Rightarrow> nat list \<Rightarrow> store \<Rightarrow> store" where
  "merge_loop na ta [] st = st"
| "merge_loop na ta (j # js) st =
     (let triggered = st ! ta ! j
      in if already_triggered (st ! na) triggered
         then merge_loop na ta js st
         else merge_loop na ta js (append_at st na triggered))"

record bfs_state =
  bs_store :: store
  bs_visited :: "bool list"
  bs_queue :: "(nat, int) priority_queue"
  bs_count :: int

text \<open>The body of the loop over the positions \<open>i\<close> of \<open>neighbours\<close> (array at \<open>na\<close>).\<close>

definition visit_neighbour ::
  "(int \<Rightarrow> nat list) \<Rightarrow> adjacency \<Rightarrow> nat \<Rightarrow> nat \<Rightarrow> bfs_state \<Rightarrow> bfs_state result" where
  "visit_neighbour ba adj na i s =
     (let neighbour_id = bs_store s ! na ! i
      in bind_res (da_get_at (bs_visited s) neighbour_id)
           (\<lambda>seen.
              if seen = False then
                bind_res (da_set_at (bs_visited s) neighbour_id True)
                  (\<lambda>visited.
                     let queue = insert_fifo (bs_queue s) neighbour_id;
                         reactions_count = bs_count s + 1
                     in (case m_find ba adj neighbour_id of
                           None \<Rightarrow> raise AttributeError
                         | Some ta \<Rightarrow>
                             ok (s\<lparr> bs_store := merge_loop na ta [0..<length (bs_store s ! ta)] (bs_store s),
                                     bs_visited := visited,
                                     bs_queue := queue,
                                     bs_count := reactions_count \<rparr>)))
              else ok s))"

text \<open>One round of the \<open>while\<close> loop of \<open>bfs_for_compounds\<close>, for a non-empty queue.\<close>

definition bfs_round :: "(int \<Rightarrow> nat list) \<Rightarrow> adjacency \<Rightarrow> bfs_state \<Rightarrow> bfs_state result" where
  "bfs_round ba adj s =
     (case remove_min (bs_queue s) of
        (None, queue) \<Rightarrow> raise AttributeError
      | (Some current_compound, queue) \<Rightarrow>
          (case m_find ba adj current_compound of
             None \<Rightarrow> raise AttributeError
           | Some na \<Rightarrow>
               for_loop [0..<length (bs_store s ! na)] (visit_neighbour ba adj na)
                 (s\<lparr> bs_queue := queue \<rparr>)))"


definition unvisited :: "bfs_state \<Rightarrow> nat" where
  "unvisited s = length (filter (\<lambda>v. \<not> v) (bs_visited s))"

definition queue_length :: "bfs_state \<Rightarrow> nat" where
  "queue_length s = length (pq_arr (bs_queue s))"

lemma bind_res_ok_iff:
  "bind_res x f = Some (Inr y) \<longleftrightarrow> (\<exists>a. x = Some (Inr a) \<and> f a = Some (Inr y))"
  by (auto simp: bind_res_def split: option.splits sum.splits)

lemma ok_iff [simp]: "ok x = Some (Inr y) \<longleftrightarrow> x = y"
  by (simp add: ok_def)

lemma raise_not_ok [simp]: "raise e \<noteq> Some (Inr y)"
  by (simp add: raise_def)

lemma filter_update_False:
  "i < length xs \<Longrightarrow> \<not> xs ! i \<Longrightarrow>
    length (filter (\<lambda>v. \<not> v) (xs[i := True])) < length (filter (\<lambda>v. \<not> v) xs)"
proof (induction xs arbitrary: i)
  case Nil
  then show ?case by simp
next
  case (Cons x xs)
  then show ?case
    by (cases i) auto
qed

lemma visit_neighbour_measure:
  assumes "visit_neighbour ba adj na i s = Some (Inr s')"
  shows "unvisited s' < unvisited s \<or> (unvisited s' = unvisited s \<and> queue_length s' = queue_length s)"
proof -
  define nb where "nb = bs_store s ! na ! i"
  from assms obtain seen where seen: "da_get_at (bs_visited s) nb = Some (Inr seen)"
    by (auto simp: visit_neighbour_def Let_def nb_def bind_res_ok_iff)
  then have rng: "0 \<le> nb" "nb < int (length (bs_visited s))" and sv: "seen = bs_visited s ! nat nb"
    by (auto simp: da_get_at_def split: if_splits)
  show ?thesis
  proof (cases seen)
    case True
    with assms seen have "s' = s"
      by (auto simp: visit_neighbour_def Let_def nb_def[symmetric] bind_res_ok_iff)
    then show ?thesis by simp
  next
    case False
    with assms seen rng have "bs_visited s' = (bs_visited s)[nat nb := True]"
      by (auto simp: visit_neighbour_def Let_def nb_def[symmetric] bind_res_ok_iff da_set_at_def
          split: option.splits)
    with False sv rng filter_update_False[of "nat nb" "bs_visited s"] show ?thesis
      by (simp add: unvisited_def)
  qed
qed

lemma for_loop_visit_measure:
  "for_loop idxs (visit_neighbour ba adj na) s = Some (Inr s') \<Longrightarrow>
     unvisited s' < unvisited s \<or> (unvisited s' = unvisited s \<and> queue_length s' = queue_length s)"
proof (induction idxs arbitrary: s)
  case Nil
  then show ?case by simp
next
  case (Cons i idxs)
  then obtain s1 where 1: "visit_neighbour ba adj na i s = Some (Inr s1)"
    and 2: "for_loop idxs (visit_neighbour ba adj na) s1 = Some (Inr s')"
    by (auto simp: bind_res_ok_iff)
  from visit_neighbour_measure[OF 1] Cons.IH[OF 2] show ?case by auto
qed

lemma remove_min_length:
  "pq_arr q \<noteq> [] \<Longrightarrow> length (pq_arr (snd (remove_min q))) < length (pq_arr q)"
  by (simp add: remove_min_def pq_is_empty_def Let_def)

lemma bfs_round_measure:
  assumes "bfs_round ba adj s = Some (Inr s')" "0 < pq_get_size (bs_queue s)"
  shows "unvisited s' < unvisited s \<or> (unvisited s' = unvisited s \<and> queue_length s' < queue_length s)"
proof -
  obtain r q where rm: "remove_min (bs_queue s) = (r, q)" by (cases "remove_min (bs_queue s)")
  from assms(2) have ne: "pq_arr (bs_queue s) \<noteq> []" by (auto simp: pq_get_size_def)
  from remove_min_length[OF ne] rm have ql: "length (pq_arr q) < length (pq_arr (bs_queue s))" by simp
  from assms(1) rm obtain na where
    fl: "for_loop [0..<length (bs_store s ! na)] (visit_neighbour ba adj na) (s\<lparr> bs_queue := q \<rparr>) = Some (Inr s')"
    by (auto simp: bfs_round_def split: option.splits)
  from for_loop_visit_measure[OF fl] ql show ?thesis
    by (auto simp: unvisited_def queue_length_def)
qed

function bfs_while :: "(int \<Rightarrow> nat list) \<Rightarrow> adjacency \<Rightarrow> bfs_state \<Rightarrow> bfs_state result" where
  "bfs_while ba adj s =
     (if pq_get_size (bs_queue s) > 0
      then (case bfs_round ba adj s of
              None \<Rightarrow> None
            | Some (Inl e) \<Rightarrow> Some (Inl e)
            | Some (Inr s') \<Rightarrow> bfs_while ba adj s')
      else ok s)"
  by pat_completeness auto
termination
proof (relation "inv_image (measures [unvisited, queue_length]) (\<lambda>(ba, adj, s). s)", goal_cases)
  case 1
  show ?case by simp
next
  case (2 ba adj s x2 b)
  from bfs_round_measure[OF 2(2)[unfolded 2(3)] 2(1)] show ?case by auto
qed

declare bfs_while.simps [simp del]

definition bfs_for_compounds ::
  "(int \<Rightarrow> nat list) \<Rightarrow> adjacency \<Rightarrow> nat \<Rightarrow> store \<Rightarrow> int \<Rightarrow> (int \<times> store) result" where
  "bfs_for_compounds ba adj n st start_id =
     (let visited = replicate n False;
          reactions_count = 1;
          queue = insert_fifo PriorityQueue_init start_id
      in bind_res (da_set_at visited start_id True)
           (\<lambda>visited.
              bind_res
                (bfs_while ba adj
                   \<lparr> bs_store = st, bs_visited = visited, bs_queue = queue,
                     bs_count = reactions_count \<rparr>)
                (\<lambda>s. ok (bs_count s, bs_store s))))"

text \<open>The final loop: try each compound as the origin and keep the best.\<close>

definition try_origin ::
  "(int \<Rightarrow> nat list) \<Rightarrow> adjacency \<Rightarrow> compound list \<Rightarrow> nat \<Rightarrow> store \<times> int \<times> int
     \<Rightarrow> (store \<times> int \<times> int) result" where
  "try_origin ba adj compounds i s =
     (case s of (st, max_compound, max_reactions) \<Rightarrow>
        let origin_id = get_compound_id (compounds ! i)
        in bind_res (bfs_for_compounds ba adj (length compounds) st origin_id)
             (\<lambda>(reactions_count, st').
                if reactions_count > max_reactions
                then ok (st', origin_id, reactions_count)
                else if reactions_count = max_reactions
                then ok (st', min max_compound origin_id, max_reactions)
                else ok (st', max_compound, max_reactions)))"

definition chain_reaction ::
  "(int \<Rightarrow> nat list) \<Rightarrow> (int \<Rightarrow> real) \<Rightarrow> nat \<Rightarrow> nat \<Rightarrow> compound list \<Rightarrow> int result" where
  "chain_reaction ba rt a b compounds =
     bind_res (build_adjacency ba rt a b compounds)
       (\<lambda>(adj, st).
          bind_res (for_loop [0..<length compounds] (try_origin ba adj compounds) (st, - 1, - 1))
            (\<lambda>(st', max_compound, max_reactions). ok max_compound))"

section \<open>Bloom filter: no false negatives\<close>

definition bf_invar :: "bloom_filter \<Rightarrow> bool" where
  "bf_invar bf \<longleftrightarrow> length (bf_data bf) = bf_capacity bf"

lemma bf_invar_init: "bf_invar (BloomFilter_init n a b)"
  by (simp add: bf_invar_def BloomFilter_init_def bv_allocate_def)

lemma bf_hash_less:
  "bf_hash ba bf k = Inr h \<Longrightarrow> h < bf_capacity bf"
  by (auto simp: bf_hash_def Let_def split: if_splits)

lemma bf_hash_insert:
  "bf_insert ba bf k = Inr bf' \<Longrightarrow> bf_hash ba bf' k' = bf_hash ba bf k'"
  by (auto simp: bf_insert_def bf_hash_def Let_def split: sum.splits)

lemma bf_insert_invar:
  "bf_insert ba bf k = Inr bf' \<Longrightarrow> bf_invar bf \<Longrightarrow> bf_invar bf'"
  by (auto simp: bf_insert_def bf_invar_def bv_set_at_def split: sum.splits if_splits)

lemma bf_insert_sets_bit:
  assumes "bf_insert ba bf k = Inr bf'" "bf_invar bf"
  shows "bf_dunder_contains ba bf' k = Inr True"
proof -
  from assms(1) obtain h where h: "bf_hash ba bf k = Inr h"
    by (auto simp: bf_insert_def split: sum.splits)
  with assms(1) have d: "bf_data bf' = (bf_data bf)[h := True]" and hl: "h < length (bf_data bf)"
    by (auto simp: bf_insert_def bv_set_at_def split: sum.splits if_splits)
  from bf_hash_insert[OF assms(1)] h have "bf_hash ba bf' k = Inr h" by simp
  with d hl show ?thesis
    by (simp add: bf_dunder_contains_def bv_get_at_def)
qed

lemma bf_insert_keeps_bit:
  assumes "bf_insert ba bf k = Inr bf'" "bf_dunder_contains ba bf k' = Inr True"
  shows "bf_dunder_contains ba bf' k' = Inr True"
proof -
  from assms(2) obtain h' where h': "bf_hash ba bf k' = Inr h'"
    and b': "h' < length (bf_data bf)" "bf_data bf ! h'"
    by (auto simp: bf_dunder_contains_def bv_get_at_def split: sum.splits if_splits)
  from assms(1) obtain h where d: "bf_data bf' = (bf_data bf)[h := True]"
    by (auto simp: bf_insert_def bv_set_at_def split: sum.splits if_splits)
  from bf_hash_insert[OF assms(1)] h' have "bf_hash ba bf' k' = Inr h'" by simp
  with d b' show ?thesis
    by (cases "h = h'") (simp_all add: bf_dunder_contains_def bv_get_at_def)
qed

lemma bf_insert_all_keeps_bit:
  "bf_insert_all ba bf ks = Inr bf' \<Longrightarrow> bf_dunder_contains ba bf k' = Inr True
     \<Longrightarrow> bf_dunder_contains ba bf' k' = Inr True"
proof (induction ks arbitrary: bf)
  case Nil
  then show ?case by simp
next
  case (Cons k ks)
  then show ?case
    by (auto split: sum.splits dest: bf_insert_keeps_bit)
qed

lemma bf_insert_all_member:
  "bf_insert_all ba bf ks = Inr bf' \<Longrightarrow> bf_invar bf \<Longrightarrow> k \<in> set ks
     \<Longrightarrow> bf_dunder_contains ba bf' k = Inr True"
proof (induction ks arbitrary: bf)
  case Nil
  then show ?case by simp
next
  case (Cons x ks)
  from Cons.prems(1) obtain bf1 where s: "bf_insert ba bf x = Inr bf1"
    and r: "bf_insert_all ba bf1 ks = Inr bf'"
    by (auto split: sum.splits)
  have inv1: "bf_invar bf1" using bf_insert_invar[OF s Cons.prems(2)] .
  show ?case
  proof (cases "k = x")
    case True
    with s Cons.prems(2) have "bf_dunder_contains ba bf1 k = Inr True"
      by (simp add: bf_insert_sets_bit)
    with r show ?thesis by (rule bf_insert_all_keeps_bit)
  next
    case False
    with Cons.prems(3) have "k \<in> set ks" by simp
    with Cons.IH[OF r inv1] show ?thesis .
  qed
qed

lemma bf_insert_total:
  assumes "0 < bf_capacity bf" "bf_invar bf"
  shows "\<exists>bf'. bf_insert ba bf k = Inr bf' \<and> bf_capacity bf' = bf_capacity bf"
  using assms
  by (auto simp: bf_insert_def bf_hash_def bv_set_at_def bf_invar_def Let_def)

lemma bf_insert_all_total:
  "0 < bf_capacity bf \<Longrightarrow> bf_invar bf \<Longrightarrow> \<exists>bf'. bf_insert_all ba bf ks = Inr bf'"
proof (induction ks arbitrary: bf)
  case Nil
  then show ?case by simp
next
  case (Cons k ks)
  from bf_insert_total[OF Cons.prems, of ba k] obtain bf1
    where s: "bf_insert ba bf k = Inr bf1" and c: "bf_capacity bf1 = bf_capacity bf"
    by blast
  from bf_insert_invar[OF s Cons.prems(2)] have "bf_invar bf1" .
  with Cons.IH[of bf1] c Cons.prems(1) s show ?case by simp
qed

text \<open>
  Claim C7. In a Bloom filter built by the constructor, after any run of insertions that
  completed, every key that was among the inserted keys is reported as a member, by
  \<open>contains\<close> and by the \<open>in\<close> operator (\<open>__contains__\<close>) alike: there are no false
  negatives. When the expected key count is positive no insertion can fail.
\<close>

theorem bloom_no_false_negatives:
  "(bf_insert_all ba (BloomFilter_init max_keys a b) ks = Inr bf \<and> k \<in> set ks
      \<longrightarrow> bf_contains ba bf k = Inr True \<and> bf_dunder_contains ba bf k = Inr True)
   \<and> (0 < max_keys \<longrightarrow> (\<exists>bf'. bf_insert_all ba (BloomFilter_init max_keys a b) ks = Inr bf'))"
proof (intro conjI impI)
  assume h: "bf_insert_all ba (BloomFilter_init max_keys a b) ks = Inr bf \<and> k \<in> set ks"
  then have "bf_dunder_contains ba bf k = Inr True"
    by (auto intro: bf_insert_all_member[OF _ bf_invar_init])
  then show "bf_contains ba bf k = Inr True" "bf_dunder_contains ba bf k = Inr True"
    by (simp_all add: bf_contains_def)
next
  assume "0 < max_keys"
  then have "0 < bf_capacity (BloomFilter_init max_keys a b)"
    by (simp add: BloomFilter_init_def)
  then show "\<exists>bf'. bf_insert_all ba (BloomFilter_init max_keys a b) ks = Inr bf'"
    using bf_insert_all_total[OF _ bf_invar_init] by blast
qed

theorem bloom_no_false_negatives_witness:
  "\<exists>bf. bf_insert_all (\<lambda>k. [k]) (BloomFilter_init 2 1000 1001) [7, 9] = Inr bf
     \<and> (9::nat) \<in> set [7, 9]
     \<and> bf_contains (\<lambda>k. [k]) bf 9 = Inr True
     \<and> bf_dunder_contains (\<lambda>k. [k]) bf 9 = Inr True"
proof -
  have "0 < (2::nat)" by simp
  with bloom_no_false_negatives[of "\<lambda>k. [k]" 2 1000 1001 "[7, 9]"]
  obtain bf' where e: "bf_insert_all (\<lambda>k. [k]) (BloomFilter_init 2 1000 1001) [7, 9] = Inr bf'"
    by blast
  have m: "(9::nat) \<in> set [7, 9]" by simp
  from bloom_no_false_negatives[of "\<lambda>k. [k]" 2 1000 1001 "[7, 9]" bf' 9] e m
  show ?thesis by blast
qed

section \<open>Priority queue: heap order, draining and heap sort\<close>

abbreviation key_at :: "('p, 'v) entry list \<Rightarrow> nat \<Rightarrow> 'p" where
  "key_at arr i \<equiv> get_key (arr ! i)"

definition node_ok :: "('p::linorder, 'v) entry list \<Rightarrow> nat \<Rightarrow> nat \<Rightarrow> bool" where
  "node_ok arr n i \<longleftrightarrow>
     (2 * i + 1 < n \<longrightarrow> key_at arr i \<le> key_at arr (2 * i + 1)) \<and>
     (2 * i + 2 < n \<longrightarrow> key_at arr i \<le> key_at arr (2 * i + 2))"

definition heap_from :: "('p::linorder, 'v) entry list \<Rightarrow> nat \<Rightarrow> nat \<Rightarrow> bool" where
  "heap_from arr lo n \<longleftrightarrow> (\<forall>i\<ge>lo. node_ok arr n i)"

definition is_heap :: "('p::linorder, 'v) entry list \<Rightarrow> bool" where
  "is_heap arr \<longleftrightarrow> heap_from arr 0 (length arr)"

lemma swap_nth:
  "i < length arr \<Longrightarrow> j < length arr \<Longrightarrow>
   swap arr i j ! x = (if x = j then arr ! i else if x = i then arr ! j else arr ! x)"
  by (simp add: swap_def nth_list_update)

lemma swap_mset: "i < length arr \<Longrightarrow> j < length arr \<Longrightarrow> mset (swap arr i j) = mset arr"
  unfolding swap_def by (simp add: mset_swap)

lemma smallest_of_props:
  fixes arr :: "('p::linorder, 'v) entry list"
  assumes "s = smallest_of arr cur n"
  shows "(s = cur \<and> node_ok arr n cur) \<or>
         ((s = 2 * cur + 1 \<or> s = 2 * cur + 2) \<and> s < n \<and> key_at arr s < key_at arr cur \<and>
          (2 * cur + 1 < n \<longrightarrow> key_at arr s \<le> key_at arr (2 * cur + 1)) \<and>
          (2 * cur + 2 < n \<longrightarrow> key_at arr s \<le> key_at arr (2 * cur + 2)))"
  using assms
  by (auto simp: smallest_of_def node_ok_def Let_def mult.commute split: if_splits)

lemma down_heap_mset:
  "n \<le> length arr \<Longrightarrow> mset (down_heap arr cur n) = mset arr"
proof (induction arr cur n rule: down_heap.induct)
  case (1 arr cur sz)
  show ?case
  proof (cases "smallest_of arr cur sz = cur")
    case True
    then show ?thesis by (subst down_heap.simps) simp
  next
    case False
    with smallest_of_cases[of arr cur sz] have lt: "smallest_of arr cur sz < sz" "cur < sz"
      by auto
    with 1(2) have "mset (swap arr cur (smallest_of arr cur sz)) = mset arr"
      by (intro swap_mset) auto
    with 1(1)[OF refl False] 1(2) False show ?thesis
      by (subst down_heap.simps) (simp add: Let_def)
  qed
qed

lemma down_heap_outside:
  "n \<le> length arr \<Longrightarrow> i < cur \<or> n \<le> i \<Longrightarrow> down_heap arr cur n ! i = arr ! i"
proof (induction arr cur n rule: down_heap.induct)
  case (1 arr cur sz)
  show ?case
  proof (cases "smallest_of arr cur sz = cur")
    case True
    then show ?thesis by (subst down_heap.simps) simp
  next
    case False
    with smallest_of_cases[of arr cur sz]
    have lt: "smallest_of arr cur sz < sz" "cur < sz" "cur < smallest_of arr cur sz"
      by auto
    have "down_heap arr cur sz ! i = down_heap (swap arr cur (smallest_of arr cur sz)) (smallest_of arr cur sz) sz ! i"
      using False by (subst down_heap.simps) (simp add: Let_def)
    also have "\<dots> = swap arr cur (smallest_of arr cur sz) ! i"
      using 1(1)[OF refl False] 1(2,3) lt by auto
    also have "\<dots> = arr ! i"
      using 1(2,3) lt by (subst swap_nth) auto
    finally show ?thesis .
  qed
qed


lemma down_heap_step:
  fixes arr :: "('p::linorder, 'v) entry list"
  assumes n: "n \<le> length arr" and lo: "lo \<le> cur"
    and others: "\<forall>i. lo \<le> i \<and> i \<noteq> cur \<longrightarrow> node_ok arr n i"
    and above: "\<forall>c. 0 < cur \<and> lo \<le> pq_parent cur \<and> c < n \<and> (c = 2 * cur + 1 \<or> c = 2 * cur + 2)
           \<longrightarrow> key_at arr (pq_parent cur) \<le> key_at arr c"
    and s: "s = 2 * cur + 1 \<or> s = 2 * cur + 2" "s < n" "key_at arr s < key_at arr cur"
        "2 * cur + 1 < n \<longrightarrow> key_at arr s \<le> key_at arr (2 * cur + 1)"
        "2 * cur + 2 < n \<longrightarrow> key_at arr s \<le> key_at arr (2 * cur + 2)"
    and arr': "arr' = swap arr cur s"
  shows "\<forall>i. lo \<le> i \<and> i \<noteq> s \<longrightarrow> node_ok arr' n i"
    and "\<forall>c. 0 < s \<and> lo \<le> pq_parent s \<and> c < n \<and> (c = 2 * s + 1 \<or> c = 2 * s + 2)
           \<longrightarrow> key_at arr' (pq_parent s) \<le> key_at arr' c"
proof -
  have rng: "cur < length arr" "s < length arr" "cur < s"
    using s n by auto
  have nth: "key_at arr' x = (if x = s then key_at arr cur else if x = cur then key_at arr s else key_at arr x)" for x
    using rng by (simp add: swap_nth arr')
  have sok: "node_ok arr n s"
    using others rng lo by auto
  have ps: "pq_parent s = cur" using s(1) by (auto simp: pq_parent_def)
  show "\<forall>i. lo \<le> i \<and> i \<noteq> s \<longrightarrow> node_ok arr' n i"
  proof (intro allI impI)
    fix i assume i: "lo \<le> i \<and> i \<noteq> s"
    show "node_ok arr' n i"
    proof (cases "i = cur")
      case True
      have "key_at arr' cur = key_at arr s" using rng by (simp add: nth)
      moreover have "key_at arr' (2 * cur + 1) = (if 2 * cur + 1 = s then key_at arr cur else key_at arr (2 * cur + 1))"
        by (simp add: nth)
      moreover have "key_at arr' (2 * cur + 2) = (if 2 * cur + 2 = s then key_at arr cur else key_at arr (2 * cur + 2))"
        by (simp add: nth)
      ultimately show ?thesis
        using s(3,4,5) True by (auto simp: node_ok_def)
    next
      case False
      with i others have ok: "node_ok arr n i" by blast
      have c1: "2 * i + 1 \<noteq> s" "2 * i + 2 \<noteq> s" using s(1) False by auto
      have ki: "key_at arr' i = key_at arr i" using i False by (simp add: nth)
      have k1: "key_at arr' (2 * i + 1) = (if 2 * i + 1 = cur then key_at arr s else key_at arr (2 * i + 1))"
        using c1 by (simp add: nth)
      have k2: "key_at arr' (2 * i + 2) = (if 2 * i + 2 = cur then key_at arr s else key_at arr (2 * i + 2))"
        using c1 by (simp add: nth)
      have up: "key_at arr i \<le> key_at arr s" if "2 * i + 1 = cur \<or> 2 * i + 2 = cur"
      proof -
        from that have p: "pq_parent cur = i" "0 < cur" by (auto simp: pq_parent_def)
        with above i s(1,2) show ?thesis by blast
      qed
      show ?thesis
        using ok up unfolding node_ok_def ki k1 k2 by auto
    qed
  qed
  show "\<forall>c. 0 < s \<and> lo \<le> pq_parent s \<and> c < n \<and> (c = 2 * s + 1 \<or> c = 2 * s + 2)
           \<longrightarrow> key_at arr' (pq_parent s) \<le> key_at arr' c"
  proof (intro allI impI)
    fix c assume c: "0 < s \<and> lo \<le> pq_parent s \<and> c < n \<and> (c = 2 * s + 1 \<or> c = 2 * s + 2)"
    from c rng have ne: "c \<noteq> cur" "c \<noteq> s" by auto
    have "key_at arr' c = key_at arr c" using ne by (simp add: nth)
    moreover have "key_at arr' cur = key_at arr s" using rng by (simp add: nth)
    moreover have "key_at arr s \<le> key_at arr c" using sok c by (auto simp: node_ok_def)
    ultimately show "key_at arr' (pq_parent s) \<le> key_at arr' c"
      by (simp add: ps)
  qed
qed

lemma down_heap_heap:
  fixes arr :: "('p::linorder, 'v) entry list"
  assumes "n \<le> length arr" "lo \<le> cur"
    and "\<forall>i. lo \<le> i \<and> i \<noteq> cur \<longrightarrow> node_ok arr n i"
    and "\<forall>c. 0 < cur \<and> lo \<le> pq_parent cur \<and> c < n \<and> (c = 2 * cur + 1 \<or> c = 2 * cur + 2)
           \<longrightarrow> key_at arr (pq_parent cur) \<le> key_at arr c"
  shows "heap_from (down_heap arr cur n) lo n"
  using assms
proof (induction arr cur n rule: down_heap.induct)
  case (1 arr cur n)
  define s where "s = smallest_of arr cur n"
  from smallest_of_props[OF s_def]
  consider (stop) "s = cur" "node_ok arr n cur"
    | (go) "s = 2 * cur + 1 \<or> s = 2 * cur + 2" "s < n" "key_at arr s < key_at arr cur"
        "2 * cur + 1 < n \<longrightarrow> key_at arr s \<le> key_at arr (2 * cur + 1)"
        "2 * cur + 2 < n \<longrightarrow> key_at arr s \<le> key_at arr (2 * cur + 2)"
    by blast
  then show ?case
  proof cases
    case stop
    then have "down_heap arr cur n = arr" by (subst down_heap.simps) (simp add: s_def)
    with stop 1(4) show ?thesis by (auto simp: heap_from_def)
  next
    case go
    then have ne: "s \<noteq> cur" by auto
    define arr' where "arr' = swap arr cur s"
    have eq: "down_heap arr cur n = down_heap arr' s n"
      using ne by (subst down_heap.simps) (simp add: Let_def s_def arr'_def)
    note st = down_heap_step[OF 1(2,3,4,5) go arr'_def]
    have "heap_from (down_heap arr' s n) lo n"
      unfolding arr'_def
    proof (rule 1(1)[OF s_def ne])
      show "n \<le> length (swap arr cur s)" using 1(2) by simp
      show "lo \<le> s" using 1(3) go(1) by auto
    qed (use st in \<open>simp_all only: arr'_def\<close>)
    with eq show ?thesis by simp
  qed
qed


lemma pq_parent_less: "0 < i \<Longrightarrow> pq_parent i < i"
  by (simp add: pq_parent_def)

lemma pq_parent_child: "0 < i \<Longrightarrow> i = 2 * pq_parent i + 1 \<or> i = 2 * pq_parent i + 2"
  by (simp add: pq_parent_def) presburger

lemma heap_from_parent_iff:
  fixes arr :: "('p::linorder, 'v) entry list"
  shows "heap_from arr 0 n \<longleftrightarrow> (\<forall>i<n. 0 < i \<longrightarrow> key_at arr (pq_parent i) \<le> key_at arr i)"
proof
  assume h: "heap_from arr 0 n"
  show "\<forall>i<n. 0 < i \<longrightarrow> key_at arr (pq_parent i) \<le> key_at arr i"
  proof (intro allI impI)
    fix i assume i: "i < n" "0 < i"
    define p where "p = pq_parent i"
    from i have "i = 2 * p + 1 \<or> i = 2 * p + 2"
      unfolding p_def by (intro pq_parent_child) simp
    moreover from h have "node_ok arr n p"
      by (simp add: heap_from_def)
    ultimately show "key_at arr (pq_parent i) \<le> key_at arr i"
      using i unfolding p_def[symmetric] node_ok_def by auto
  qed
next
  assume r: "\<forall>i<n. 0 < i \<longrightarrow> key_at arr (pq_parent i) \<le> key_at arr i"
  show "heap_from arr 0 n"
    unfolding heap_from_def node_ok_def
  proof (intro allI impI conjI)
    fix i assume "2 * i + 1 < n"
    with r[rule_format, of "2 * i + 1"] show "key_at arr i \<le> key_at arr (2 * i + 1)"
      by (simp add: pq_parent_def)
  next
    fix i assume "2 * i + 2 < n"
    with r[rule_format, of "2 * i + 2"] show "key_at arr i \<le> key_at arr (2 * i + 2)"
      by (simp add: pq_parent_def)
  qed
qed

lemma heap_from_min:
  fixes arr :: "('p::linorder, 'v) entry list"
  assumes "heap_from arr 0 n"
  shows "i < n \<Longrightarrow> key_at arr 0 \<le> key_at arr i"
proof (induction i rule: less_induct)
  case (less i)
  show ?case
  proof (cases "i = 0")
    case True
    then show ?thesis by simp
  next
    case False
    then have p: "pq_parent i < i" by (simp add: pq_parent_less)
    with less have "key_at arr 0 \<le> key_at arr (pq_parent i)" by simp
    also from assms less.prems False have "\<dots> \<le> key_at arr i"
      by (simp add: heap_from_parent_iff)
    finally show ?thesis .
  qed
qed

lemma is_heap_parent_iff:
  fixes arr :: "('p::linorder, 'v) entry list"
  shows "is_heap arr \<longleftrightarrow> (\<forall>i<length arr. 0 < i \<longrightarrow> key_at arr (pq_parent i) \<le> key_at arr i)"
  unfolding is_heap_def by (rule heap_from_parent_iff)

lemma up_heap_length [simp]: "length (up_heap arr ix) = length arr"
proof (induction arr ix rule: up_heap.induct)
  case (1 arr ix)
  show ?case
  proof (cases "ix > 0 \<and> get_key (arr ! ix) < get_key (arr ! pq_parent ix)")
    case True
    with 1 show ?thesis by (subst up_heap.simps) simp
  next
    case False
    then show ?thesis by (subst up_heap.simps) auto
  qed
qed

lemma up_heap_mset: "ix < length arr \<Longrightarrow> mset (up_heap arr ix) = mset arr"
proof (induction arr ix rule: up_heap.induct)
  case (1 arr ix)
  show ?case
  proof (cases "ix > 0 \<and> get_key (arr ! ix) < get_key (arr ! pq_parent ix)")
    case True
    then have p: "pq_parent ix < ix" by (simp add: pq_parent_less)
    with 1(2) have "mset (swap arr ix (pq_parent ix)) = mset arr"
      by (intro swap_mset) auto
    moreover have "mset (up_heap (swap arr ix (pq_parent ix)) (pq_parent ix))
        = mset (swap arr ix (pq_parent ix))"
      using True p 1(2) by (intro 1(1)) auto
    ultimately show ?thesis using True by (subst up_heap.simps) simp
  next
    case False
    then show ?thesis by (subst up_heap.simps) auto
  qed
qed

lemma up_heap_step:
  fixes arr :: "('p::linorder, 'v) entry list"
  assumes ix: "ix < length arr"
    and others: "\<forall>i<length arr. 0 < i \<and> i \<noteq> ix \<longrightarrow> key_at arr (pq_parent i) \<le> key_at arr i"
    and below: "\<forall>c<length arr. 0 < ix \<and> 0 < c \<and> pq_parent c = ix
           \<longrightarrow> key_at arr (pq_parent ix) \<le> key_at arr c"
    and go: "0 < ix" "key_at arr ix < key_at arr (pq_parent ix)"
    and p: "p = pq_parent ix" and arr': "arr' = swap arr ix p"
  shows "\<forall>i<length arr'. 0 < i \<and> i \<noteq> p \<longrightarrow> key_at arr' (pq_parent i) \<le> key_at arr' i"
    and "\<forall>c<length arr'. 0 < p \<and> 0 < c \<and> pq_parent c = p
           \<longrightarrow> key_at arr' (pq_parent p) \<le> key_at arr' c"
proof -
  have pl: "p < ix" using go(1) by (simp add: p pq_parent_less)
  have nth: "key_at arr' x = (if x = p then key_at arr ix else if x = ix then key_at arr p else key_at arr x)" for x
    using pl ix by (simp add: swap_nth arr')
  have kp: "key_at arr ix < key_at arr p" using go(2) by (simp add: p)
  show "\<forall>i<length arr'. 0 < i \<and> i \<noteq> p \<longrightarrow> key_at arr' (pq_parent i) \<le> key_at arr' i"
  proof (intro allI impI)
    fix i assume i: "i < length arr'" "0 < i \<and> i \<noteq> p"
    then have il: "i < length arr" by (simp add: arr')
    show "key_at arr' (pq_parent i) \<le> key_at arr' i"
    proof (cases "i = ix")
      case True
      have "key_at arr' ix = key_at arr p" using pl by (simp add: nth)
      moreover have "key_at arr' p = key_at arr ix" by (simp add: nth)
      ultimately show ?thesis using kp True by (simp add: p[symmetric])
    next
      case False
      with i have ki: "key_at arr' i = key_at arr i" by (simp add: nth)
      from False i il others have base: "key_at arr (pq_parent i) \<le> key_at arr i" by blast
      consider (a) "pq_parent i = ix" | (b) "pq_parent i = p" | (c) "pq_parent i \<noteq> ix" "pq_parent i \<noteq> p"
        by blast
      then show ?thesis
      proof cases
        case a
        with below il i go(1) have "key_at arr p \<le> key_at arr i"
          unfolding p by blast
        moreover have "key_at arr' (pq_parent i) = key_at arr p" using a pl by (simp add: nth)
        ultimately show ?thesis by (simp add: ki)
      next
        case b
        then have "key_at arr' (pq_parent i) = key_at arr ix" by (simp add: nth)
        with base b kp show ?thesis by (simp add: ki)
      next
        case c
        then have "key_at arr' (pq_parent i) = key_at arr (pq_parent i)" by (simp add: nth)
        with base show ?thesis by (simp add: ki)
      qed
    qed
  qed
  show "\<forall>c<length arr'. 0 < p \<and> 0 < c \<and> pq_parent c = p
           \<longrightarrow> key_at arr' (pq_parent p) \<le> key_at arr' c"
  proof (intro allI impI)
    fix c assume c: "c < length arr'" "0 < p \<and> 0 < c \<and> pq_parent c = p"
    then have cl: "c < length arr" by (simp add: arr')
    from c have ppl: "pq_parent p < p" by (simp add: pq_parent_less)
    with pl have kpp: "key_at arr' (pq_parent p) = key_at arr (pq_parent p)"
      by (simp add: nth)
    have "p < length arr" "0 < p \<and> p \<noteq> ix" using pl ix c by auto
    with others have ppp: "key_at arr (pq_parent p) \<le> key_at arr p" by blast
    have cne: "c \<noteq> p" using c ppl by auto
    show "key_at arr' (pq_parent p) \<le> key_at arr' c"
    proof (cases "c = ix")
      case True
      then have "key_at arr' c = key_at arr p" using pl by (simp add: nth)
      with ppp show ?thesis by (simp add: kpp)
    next
      case False
      with others cl c have "key_at arr p \<le> key_at arr c" by auto
      moreover have "key_at arr' c = key_at arr c" using False cne by (simp add: nth)
      ultimately show ?thesis using ppp by (simp add: kpp)
    qed
  qed
qed

lemma up_heap_heap:
  fixes arr :: "('p::linorder, 'v) entry list"
  assumes "ix < length arr"
    and "\<forall>i<length arr. 0 < i \<and> i \<noteq> ix \<longrightarrow> key_at arr (pq_parent i) \<le> key_at arr i"
    and "\<forall>c<length arr. 0 < ix \<and> 0 < c \<and> pq_parent c = ix
           \<longrightarrow> key_at arr (pq_parent ix) \<le> key_at arr c"
  shows "is_heap (up_heap arr ix)"
  using assms
proof (induction arr ix rule: up_heap.induct)
  case (1 arr ix)
  note IH = 1(1) and ix = 1(2) and others = 1(3) and below = 1(4)
  show ?case
  proof (cases "ix > 0 \<and> get_key (arr ! ix) < get_key (arr ! pq_parent ix)")
    case False
    then have "up_heap arr ix = arr" by (subst up_heap.simps) auto
    moreover have "\<forall>i<length arr. 0 < i \<longrightarrow> key_at arr (pq_parent i) \<le> key_at arr i"
    proof (intro allI impI)
      fix i assume i: "i < length arr" "0 < i"
      show "key_at arr (pq_parent i) \<le> key_at arr i"
      proof (cases "i = ix")
        case True
        with False i show ?thesis by (simp add: not_less)
      next
        case False
        with others i show ?thesis by blast
      qed
    qed
    ultimately show ?thesis by (simp add: is_heap_parent_iff)
  next
    case True
    then have go: "0 < ix" "key_at arr ix < key_at arr (pq_parent ix)" by simp_all
    have eq: "up_heap arr ix = up_heap (swap arr ix (pq_parent ix)) (pq_parent ix)"
      using True by (subst up_heap.simps) simp
    note st = up_heap_step[OF ix others below go refl refl]
    have "is_heap (up_heap (swap arr ix (pq_parent ix)) (pq_parent ix))"
    proof (rule IH[OF True])
      show "pq_parent ix < length (swap arr ix (pq_parent ix))"
        using pq_parent_less[OF go(1)] ix by simp
    qed (rule st)+
    with eq show ?thesis by simp
  qed
qed

lemma pq_insert_heap:
  fixes q :: "('p::linorder, 'v) priority_queue"
  assumes "is_heap (pq_arr q)"
  shows "is_heap (pq_arr (pq_insert q p v))"
proof -
  define arr where "arr = pq_arr q @ [Entry p v]"
  have len: "length arr - 1 = length (pq_arr q)" "length arr = Suc (length (pq_arr q))"
    by (simp_all add: arr_def)
  have "is_heap (up_heap arr (length arr - 1))"
  proof (rule up_heap_heap)
    show "length arr - 1 < length arr" by (simp add: arr_def)
    show "\<forall>i<length arr. 0 < i \<and> i \<noteq> length arr - 1 \<longrightarrow> key_at arr (pq_parent i) \<le> key_at arr i"
    proof (intro allI impI)
      fix i assume i: "i < length arr" "0 < i \<and> i \<noteq> length arr - 1"
      then have il: "i < length (pq_arr q)" using len by simp
      from i have "pq_parent i < i" by (intro pq_parent_less) simp
      with il have "pq_parent i < length (pq_arr q)" by simp
      with il assms i show "key_at arr (pq_parent i) \<le> key_at arr i"
        by (simp add: arr_def nth_append is_heap_parent_iff)
    qed
    show "\<forall>c<length arr. 0 < length arr - 1 \<and> 0 < c \<and> pq_parent c = length arr - 1
        \<longrightarrow> key_at arr (pq_parent (length arr - 1)) \<le> key_at arr c"
    proof (intro allI impI)
      fix c assume c: "c < length arr" "0 < length arr - 1 \<and> 0 < c \<and> pq_parent c = length arr - 1"
      from c have "pq_parent c < c" by (intro pq_parent_less) simp
      with c have False by linarith
      then show "key_at arr (pq_parent (length arr - 1)) \<le> key_at arr c" ..
    qed
  qed
  then show ?thesis by (simp add: pq_insert_def Let_def arr_def)
qed

lemma pq_insert_mset:
  "mset (pq_arr (pq_insert q p v)) = add_mset (Entry p v) (mset (pq_arr q))"
  by (simp add: pq_insert_def Let_def up_heap_mset)


lemma heap_from_smaller:
  "heap_from arr lo n \<Longrightarrow> m \<le> n \<Longrightarrow> heap_from arr lo m"
  by (auto simp: heap_from_def node_ok_def)

lemma remove_min_empty:
  "pq_arr q = [] \<Longrightarrow> remove_min q = (None, q)"
  by (simp add: remove_min_def pq_is_empty_def)

lemma remove_min_nonempty:
  fixes q :: "('p::linorder, 'v) priority_queue"
  assumes ne: "pq_arr q \<noteq> []"
  obtains q' where "remove_min q = (Some (get_value (pq_arr q ! 0)), q')"
    "mset (pq_arr q) = add_mset (pq_arr q ! 0) (mset (pq_arr q'))"
    "is_heap (pq_arr q) \<Longrightarrow> is_heap (pq_arr q')"
    "pq_max_priority q' = pq_max_priority q"
proof -
  define arr where "arr = pq_arr q"
  define arr2 where "arr2 = butlast (arr[0 := arr ! (length arr - 1)])"
  define q' where "q' = q\<lparr> pq_arr := down_heap arr2 0 (length arr2) \<rparr>"
  have rm: "remove_min q = (Some (get_value (pq_arr q ! 0)), q')"
    using ne by (simp add: remove_min_def pq_is_empty_def Let_def q'_def arr2_def arr_def pq_get_size_def)
  from ne obtain x xs where arr: "arr = x # xs" by (cases "pq_arr q") (auto simp: arr_def)
  have len2: "length arr2 = length xs" by (simp add: arr2_def arr)
  have nth2: "0 < j \<Longrightarrow> j < length arr2 \<Longrightarrow> arr2 ! j = arr ! j" for j
    unfolding arr2_def by (simp add: nth_butlast)
  have m2: "mset arr = add_mset (arr ! 0) (mset arr2)"
  proof (cases "xs = []")
    case True
    then show ?thesis by (simp add: arr arr2_def)
  next
    case False
    then have "arr2 = last xs # butlast xs" by (simp add: arr arr2_def last_conv_nth)
    moreover from False have "mset xs = add_mset (last xs) (mset (butlast xs))"
      by (metis append_butlast_last_id mset.simps(2) mset_append union_mset_add_mset_right add.right_neutral mset.simps(1))
    ultimately show ?thesis by (simp add: arr)
  qed
  have m: "mset (pq_arr q) = add_mset (pq_arr q ! 0) (mset (pq_arr q'))"
    using m2 by (simp add: q'_def down_heap_mset arr_def)
  have h: "is_heap (pq_arr q')" if hp: "is_heap (pq_arr q)"
  proof -
    have "heap_from (down_heap arr2 0 (length arr2)) 0 (length arr2)"
    proof (rule down_heap_heap)
      show "\<forall>i. 0 \<le> i \<and> i \<noteq> 0 \<longrightarrow> node_ok arr2 (length arr2) i"
      proof (intro allI impI)
        fix i :: nat assume i: "0 \<le> i \<and> i \<noteq> 0"
        from hp have ok: "node_ok arr (length arr) i"
          by (simp add: is_heap_def heap_from_def arr_def)
        show "node_ok arr2 (length arr2) i"
          unfolding node_ok_def
        proof (intro conjI impI)
          assume c: "2 * i + 1 < length arr2"
          with i have "arr2 ! i = arr ! i" "arr2 ! (2 * i + 1) = arr ! (2 * i + 1)"
            by (simp_all add: nth2)
          with ok c show "key_at arr2 i \<le> key_at arr2 (2 * i + 1)"
            by (simp add: node_ok_def len2 arr)
        next
          assume c: "2 * i + 2 < length arr2"
          with i have "arr2 ! i = arr ! i" "arr2 ! (2 * i + 2) = arr ! (2 * i + 2)"
            by (simp_all add: nth2)
          with ok c show "key_at arr2 i \<le> key_at arr2 (2 * i + 2)"
            by (simp add: node_ok_def len2 arr)
        qed
      qed
    qed simp_all
    then show ?thesis by (simp add: q'_def is_heap_def)
  qed
  have "pq_max_priority q' = pq_max_priority q" by (simp add: q'_def)
  with rm m h that show thesis by blast
qed

lemma drain_heap:
  fixes q :: "('p::linorder, 'v) priority_queue"
  shows "is_heap (pq_arr q) \<Longrightarrow>
    sorted (map fst (drain q)) \<and> mset (drain q) = mset (map pair_of (pq_arr q))"
proof (induction "length (pq_arr q)" arbitrary: q)
  case 0
  then show ?case by (subst drain.simps, subst drain.simps) (simp add: pq_is_empty_def)
next
  case (Suc n)
  then have ne: "pq_arr q \<noteq> []" by auto
  from remove_min_nonempty[OF ne] obtain q' where
    rm: "remove_min q = (Some (get_value (pq_arr q ! 0)), q')"
    and m: "mset (pq_arr q) = add_mset (pq_arr q ! 0) (mset (pq_arr q'))"
    and h: "is_heap (pq_arr q')"
    using Suc.prems by blast
  from m have "size (mset (pq_arr q)) = Suc (size (mset (pq_arr q')))" by simp
  with Suc.hyps(2) have len: "n = length (pq_arr q')" by simp
  from Suc.hyps(1)[OF len h]
  have IH: "sorted (map fst (drain q'))" "mset (drain q') = mset (map pair_of (pq_arr q'))"
    by simp_all
  have d: "drain q = (key_at (pq_arr q) 0, get_value (pq_arr q ! 0)) # drain q'"
    using ne rm by (subst drain.simps) (simp add: pq_is_empty_def get_min_priority_def)
  have "key_at (pq_arr q) 0 \<le> fst y" if y: "y \<in> set (drain q')" for y
  proof -
    from y IH(2) have "y \<in># mset (map pair_of (pq_arr q'))" by (metis set_mset_mset)
    then obtain e where e: "e \<in> set (pq_arr q')" "y = pair_of e" by auto
    with m have "e \<in> set (pq_arr q)" by (metis insert_iff set_mset_add_mset_insert set_mset_mset)
    then obtain i where "i < length (pq_arr q)" "pq_arr q ! i = e"
      by (auto simp: in_set_conv_nth)
    with heap_from_min[of "pq_arr q" "length (pq_arr q)" i] Suc.prems e
    show ?thesis by (auto simp: is_heap_def pair_of_def)
  qed
  then have "sorted (map fst (drain q))" using IH(1) by (auto simp: d)
  moreover have "mset (drain q) = mset (map pair_of (pq_arr q))"
    using IH(2) m by (simp add: d pair_of_def)
  ultimately show ?case by simp
qed

lemma pq_insert_all_heap:
  fixes q :: "('p::linorder, 'v) priority_queue"
  shows "is_heap (pq_arr q) \<Longrightarrow> is_heap (pq_arr (pq_insert_all q xs))"
  by (induction q xs rule: pq_insert_all.induct) (simp_all add: pq_insert_heap)

lemma pq_insert_all_mset:
  "mset (map pair_of (pq_arr (pq_insert_all q xs))) = mset xs + mset (map pair_of (pq_arr q))"
  by (induction q xs rule: pq_insert_all.induct) (simp_all add: pq_insert_mset pair_of_def)

lemma is_heap_Nil: "is_heap []"
  by (simp add: is_heap_def heap_from_def node_ok_def)

text \<open>
  Claim C4. Starting from the empty queue, after any sequence of \<open>insert(priority, value)\<close>
  calls, draining the queue with \<open>remove_min\<close> yields exactly the inserted pairs, each
  value with the priority it was inserted with, in non-decreasing order of priority.
\<close>

theorem drain_after_inserts_sorted:
  fixes xs :: "('p::linorder \<times> 'v) list"
  shows "sorted (map fst (drain (pq_insert_all PriorityQueue_init xs)))
       \<and> mset (drain (pq_insert_all PriorityQueue_init xs)) = mset xs"
proof -
  have "is_heap (pq_arr (pq_insert_all (PriorityQueue_init :: ('p, 'v) priority_queue) xs))"
    by (rule pq_insert_all_heap) (simp add: PriorityQueue_init_def is_heap_Nil)
  from drain_heap[OF this]
    pq_insert_all_mset[of "PriorityQueue_init :: ('p, 'v) priority_queue" xs]
  show ?thesis
    by (simp add: PriorityQueue_init_def)
qed


lemma ip_build_loop_length [simp]: "length (ip_build_loop arr n c) = length arr"
  by (induction c arbitrary: arr) simp_all

lemma ip_build_loop_mset:
  "n \<le> length arr \<Longrightarrow> mset (ip_build_loop arr n c) = mset arr"
  by (induction c arbitrary: arr) (simp_all add: down_heap_mset)

lemma ip_build_loop_heap:
  fixes arr :: "('p::linorder, 'v) entry list"
  shows "n \<le> length arr \<Longrightarrow> heap_from arr c n \<Longrightarrow> heap_from (ip_build_loop arr n c) 0 n"
proof (induction c arbitrary: arr)
  case 0
  then show ?case by simp
next
  case (Suc i)
  have "heap_from (down_heap arr i n) i n"
  proof (rule down_heap_heap)
    show "\<forall>j. i \<le> j \<and> j \<noteq> i \<longrightarrow> node_ok arr n j"
      using Suc.prems(2) by (auto simp: heap_from_def)
    show "\<forall>c. 0 < i \<and> i \<le> pq_parent i \<and> c < n \<and> (c = 2 * i + 1 \<or> c = 2 * i + 2)
        \<longrightarrow> key_at arr (pq_parent i) \<le> key_at arr c"
      using pq_parent_less[of i] by auto
  qed (use Suc.prems in simp_all)
  with Suc.IH[of "down_heap arr i n"] Suc.prems(1) show ?case by simp
qed

lemma heap_from_half:
  fixes arr :: "('p::linorder, 'v) entry list"
  shows "heap_from arr (n div 2) n"
  unfolding heap_from_def node_ok_def by (intro allI impI conjI) linarith+

lemma ip_build_is_heap:
  fixes xs :: "('p::linorder, 'v) entry list"
  shows "is_heap (pq_arr (ip_build q xs))" "mset (pq_arr (ip_build q xs)) = mset xs"
  using ip_build_loop_heap[OF order_refl heap_from_half, of xs]
  by (simp_all add: ip_build_def Let_def is_heap_def ip_build_loop_mset)

abbreviation key_ge :: "('p::linorder, 'v) entry \<Rightarrow> ('p, 'v) entry \<Rightarrow> bool" where
  "key_ge a b \<equiv> get_key b \<le> get_key a"

definition sort_inv :: "('p::linorder, 'v) entry list \<Rightarrow> nat \<Rightarrow> bool" where
  "sort_inv arr i \<longleftrightarrow>
     i < length arr \<and> heap_from arr 0 (Suc i) \<and> sorted_wrt key_ge (drop (Suc i) arr) \<and>
     (\<forall>x\<in>set (take (Suc i) arr). \<forall>y\<in>set (drop (Suc i) arr). get_key y \<le> get_key x)"

lemma down_heap_drop:
  assumes "n \<le> length arr"
  shows "drop n (down_heap arr cur n) = drop n arr"
  by (rule nth_equalityI) (use assms in \<open>simp_all add: down_heap_outside\<close>)

lemma down_heap_take_mset:
  assumes "n \<le> length arr"
  shows "mset (take n (down_heap arr cur n)) = mset (take n arr)"
proof -
  have "mset (take n (down_heap arr cur n)) + mset (drop n (down_heap arr cur n))
      = mset (take n arr) + mset (drop n arr)"
    unfolding mset_append[symmetric] append_take_drop_id by (rule down_heap_mset[OF assms])
  then show ?thesis by (simp add: down_heap_drop[OF assms])
qed

lemma sort_step_inv:
  fixes arr :: "('p::linorder, 'v) entry list"
  assumes inv: "sort_inv arr (Suc i)"
  shows "sort_inv (down_heap (swap arr 0 (Suc i)) 0 (Suc i)) i"
proof -
  define arr1 where "arr1 = swap arr 0 (Suc i)"
  define arr2 where "arr2 = down_heap arr1 0 (Suc i)"
  from inv have len: "Suc i < length arr" and hp: "heap_from arr 0 (Suc (Suc i))"
    and srt: "sorted_wrt key_ge (drop (Suc (Suc i)) arr)"
    and sep: "\<forall>x\<in>set (take (Suc (Suc i)) arr). \<forall>y\<in>set (drop (Suc (Suc i)) arr). get_key y \<le> get_key x"
    by (simp_all add: sort_inv_def)
  have len1: "length arr1 = length arr" by (simp add: arr1_def)
  have nth1: "arr1 ! x = (if x = Suc i then arr ! 0 else if x = 0 then arr ! Suc i else arr ! x)" for x
    using len by (subst arr1_def, subst swap_nth) auto
  have h2: "heap_from arr2 0 (Suc i)"
    unfolding arr2_def
  proof (rule down_heap_heap)
    show "\<forall>j. 0 \<le> j \<and> j \<noteq> 0 \<longrightarrow> node_ok arr1 (Suc i) j"
    proof (intro allI impI)
      fix j :: nat assume j: "0 \<le> j \<and> j \<noteq> 0"
      from hp have "node_ok arr (Suc (Suc i)) j" by (simp add: heap_from_def)
      with j show "node_ok arr1 (Suc i) j"
        unfolding node_ok_def nth1 by auto
    qed
  qed (use len len1 in simp_all)
  have d2: "drop (Suc i) arr2 = arr ! 0 # drop (Suc (Suc i)) arr"
  proof -
    have "drop (Suc i) arr2 = drop (Suc i) arr1"
      unfolding arr2_def using len len1 by (intro down_heap_drop) simp
    also have "\<dots> = arr1 ! Suc i # drop (Suc (Suc i)) arr1"
      using len len1 by (simp add: Cons_nth_drop_Suc)
    also have "drop (Suc (Suc i)) arr1 = drop (Suc (Suc i)) arr"
      by (rule nth_equalityI) (simp_all add: len1 nth1)
    finally show ?thesis by (simp add: nth1)
  qed
  have t2: "set (take (Suc i) arr2) \<subseteq> set (take (Suc (Suc i)) arr)"
  proof -
    have "mset (take (Suc i) arr2) = mset (take (Suc i) arr1)"
      unfolding arr2_def using len len1 by (intro down_heap_take_mset) simp
    then have "set (take (Suc i) arr2) = set (take (Suc i) arr1)"
      by (rule mset_eq_setD)
    also have "\<dots> \<subseteq> set (take (Suc (Suc i)) arr)"
    proof
      fix x assume "x \<in> set (take (Suc i) arr1)"
      then obtain j where j: "j < Suc i" "x = arr1 ! j"
        using len len1 by (auto simp: in_set_conv_nth)
      then have "x = arr ! (if j = 0 then Suc i else j)" by (simp add: nth1)
      moreover have "(if j = 0 then Suc i else j) < Suc (Suc i)" using j by simp
      ultimately show "x \<in> set (take (Suc (Suc i)) arr)"
        using len unfolding in_set_conv_nth by (intro exI[of _ "if j = 0 then Suc i else j"]) simp
    qed
    finally show ?thesis .
  qed
  have a0: "arr ! 0 \<in> set (take (Suc (Suc i)) arr)"
    using len unfolding in_set_conv_nth by (intro exI[of _ 0]) simp
  have min0: "get_key (arr ! 0) \<le> get_key x" if "x \<in> set (take (Suc (Suc i)) arr)" for x
  proof -
    from that obtain j where "j < Suc (Suc i)" "x = arr ! j"
      using len by (auto simp: in_set_conv_nth)
    with heap_from_min[OF hp, of j] show ?thesis by simp
  qed
  have "sorted_wrt key_ge (drop (Suc i) arr2)"
    using srt sep a0 by (simp add: d2)
  moreover have "\<forall>x\<in>set (take (Suc i) arr2). \<forall>y\<in>set (drop (Suc i) arr2). get_key y \<le> get_key x"
    using t2 sep min0 by (auto simp: d2)
  moreover have "i < length arr2" using len len1 by (simp add: arr2_def)
  ultimately show ?thesis
    using h2 by (simp add: sort_inv_def arr2_def arr1_def)
qed

lemma sort_loop_length [simp]: "length (sort_loop arr i) = length arr"
  by (induction i arbitrary: arr) simp_all

lemma sort_loop_mset: "i < length arr \<Longrightarrow> mset (sort_loop arr i) = mset arr"
proof (induction i arbitrary: arr)
  case 0
  then show ?case by simp
next
  case (Suc i)
  then have "mset (swap arr 0 (Suc i)) = mset arr" by (intro swap_mset) auto
  with Suc show ?case by (simp add: down_heap_mset)
qed

lemma sort_loop_sorted:
  fixes arr :: "('p::linorder, 'v) entry list"
  shows "sort_inv arr i \<Longrightarrow> sorted_wrt key_ge (sort_loop arr i)"
proof (induction i arbitrary: arr)
  case 0
  then obtain x xs where arr: "arr = x # xs" by (cases arr) (auto simp: sort_inv_def)
  with 0 show ?case by (simp add: sort_inv_def)
next
  case (Suc i)
  from Suc.IH[OF sort_step_inv[OF Suc.prems]] show ?case by simp
qed

lemma pq_sort_descending:
  fixes q :: "('p::linorder, 'v) priority_queue"
  shows "sorted_wrt key_ge (pq_sort q)" "mset (pq_sort q) = mset (pq_arr q)"
proof -
  define n where "n = length (pq_arr q)"
  define arr where "arr = ip_build_loop (pq_arr q) n (n div 2)"
  have ps: "pq_sort q = sort_loop arr (n - 1)"
    by (simp add: pq_sort_def Let_def pq_get_size_def arr_def n_def)
  have h: "heap_from arr 0 n" and la: "length arr = n" and m: "mset arr = mset (pq_arr q)"
    unfolding arr_def using ip_build_loop_heap[OF _ heap_from_half, of n "pq_arr q"]
    by (simp_all add: n_def ip_build_loop_mset)
  show "sorted_wrt key_ge (pq_sort q)"
  proof (cases "n = 0")
    case True
    with la show ?thesis by (simp add: ps)
  next
    case False
    with h la have "sort_inv arr (n - 1)" by (simp add: sort_inv_def)
    then show ?thesis unfolding ps by (rule sort_loop_sorted)
  qed
  show "mset (pq_sort q) = mset (pq_arr q)"
  proof (cases "n = 0")
    case True
    with la m show ?thesis by (simp add: ps)
  next
    case False
    with la m show ?thesis by (simp add: ps sort_loop_mset)
  qed
qed

text \<open>
  Claim C5, as amended. For any backing array, \<open>sort\<close> returns a rearrangement of the
  entries whose priorities are in non-increasing order from the first position to the last:
  read backwards the priorities ascend. The heap is a min-heap, and each round moves the
  current minimum to the end of the unsorted part.
\<close>

theorem sort_is_descending:
  fixes q :: "('p::linorder, 'v) priority_queue"
  shows "sorted (rev (map get_key (pq_sort q))) \<and> mset (pq_sort q) = mset (pq_arr q)"
proof -
  have "sorted_wrt (\<lambda>a b. b \<le> a) (map get_key (pq_sort q))"
    using pq_sort_descending(1)[of q] by (simp add: sorted_wrt_map)
  then have "sorted (rev (map get_key (pq_sort q)))"
    by (simp add: sorted_wrt_rev)
  with pq_sort_descending(2)[of q] show ?thesis by simp
qed

text \<open>
  Claim C5 as stated fails: on the two entries with priorities 1 and 2 the array that
  \<open>sort\<close> returns is not in ascending order of priority.
\<close>

theorem sort_not_ascending:
  "\<not> sorted (map get_key (pq_sort \<lparr> pq_arr = [Entry (1::nat) ''a'', Entry 2 ''b''], pq_max_priority = 0 \<rparr>))"
  by code_simp


lemma smallest_of_take:
  assumes "n \<le> length arr"
  shows "smallest_of (take n arr) cur n = smallest_of arr cur n"
proof (cases "cur * 2 + 1 < n")
  case False
  then show ?thesis by (simp add: smallest_of_def Let_def)
next
  case l: True
  then have c: "take n arr ! cur = arr ! cur" "take n arr ! (cur * 2 + 1) = arr ! (cur * 2 + 1)"
    by simp_all
  show ?thesis
  proof (cases "cur * 2 + 2 < n")
    case False
    with l c show ?thesis by (simp add: smallest_of_def Let_def)
  next
    case True
    then have "take n arr ! (cur * 2 + 2) = arr ! (cur * 2 + 2)" by simp
    with l c True show ?thesis by (simp add: smallest_of_def Let_def)
  qed
qed

lemma swap_take:
  "i < n \<Longrightarrow> j < n \<Longrightarrow> n \<le> length arr \<Longrightarrow> take n (swap arr i j) = swap (take n arr) i j"
  by (simp add: swap_def take_update_swap)

lemma down_heap_take:
  "n \<le> length arr \<Longrightarrow> take n (down_heap arr cur n) = down_heap (take n arr) cur n"
proof (induction arr cur n rule: down_heap.induct)
  case (1 arr cur n)
  define s where "s = smallest_of arr cur n"
  have s': "smallest_of (take n arr) cur n = s"
    using 1(2) by (simp add: s_def smallest_of_take)
  show ?case
  proof (cases "s = cur")
    case True
    then show ?thesis
      by (subst down_heap.simps, subst (2) down_heap.simps) (simp add: s' s_def[symmetric])
  next
    case False
    with smallest_of_cases[of arr cur n] have lt: "s < n" "cur < n"
      by (auto simp: s_def)
    have "take n (down_heap (swap arr cur s) s n) = down_heap (take n (swap arr cur s)) s n"
      using 1(1)[OF s_def False] 1(2) by simp
    also have "take n (swap arr cur s) = swap (take n arr) cur s"
      using lt 1(2) by (simp add: swap_take)
    finally show ?thesis
      using False
      by (subst down_heap.simps, subst (2) down_heap.simps) (simp add: s' s_def[symmetric] Let_def)
  qed
qed

lemma drain_unfold:
  fixes q :: "('p::linorder, 'v) priority_queue"
  shows "drain q =
     (if pq_arr q = [] then []
      else pair_of (pq_arr q ! 0) #
           drain (q\<lparr> pq_arr := down_heap (butlast ((pq_arr q)[0 := pq_arr q ! (length (pq_arr q) - 1)])) 0
                                   (length (pq_arr q) - 1) \<rparr>))"
  by (subst drain.simps)
     (simp add: pq_is_empty_def get_min_priority_def remove_min_def Let_def pair_of_def pq_get_size_def)

lemma drain_arr_only:
  fixes q :: "('p::linorder, 'v) priority_queue"
  shows "pq_arr q = pq_arr q' \<Longrightarrow> drain q = drain q'"
proof (induction "length (pq_arr q)" arbitrary: q q')
  case 0
  then show ?case by (subst drain_unfold, subst (2) drain_unfold) simp
next
  case (Suc n)
  let ?a = "down_heap (butlast ((pq_arr q)[0 := pq_arr q ! (length (pq_arr q) - 1)])) 0 (length (pq_arr q) - 1)"
  have "drain (q\<lparr> pq_arr := ?a \<rparr>) = drain (q'\<lparr> pq_arr := ?a \<rparr>)"
    using Suc.hyps(2) by (intro Suc.hyps(1)) simp_all
  with Suc.prems show ?case
    by (subst drain_unfold, subst (2) drain_unfold) simp
qed

lemma sort_loop_drain:
  fixes arr :: "('p::linorder, 'v) entry list"
  shows "i < length arr \<Longrightarrow>
    map pair_of (sort_loop arr i)
      = rev (drain (q\<lparr> pq_arr := take (Suc i) arr \<rparr>)) @ map pair_of (drop (Suc i) arr)"
proof (induction i arbitrary: arr q)
  case 0
  then obtain x xs where arr: "arr = x # xs" by (cases arr) auto
  have "drain (q\<lparr> pq_arr := [x] \<rparr>) = [pair_of x]"
    by (subst drain_unfold, subst drain_unfold) (simp add: down_heap.simps[of "[]"] smallest_of_def)
  then show ?case by (simp add: arr)
next
  case (Suc i)
  define arr1 where "arr1 = swap arr 0 (Suc i)"
  define arr2 where "arr2 = down_heap arr1 0 (Suc i)"
  define P where "P = take (Suc (Suc i)) arr"
  have len: "Suc i < length arr" by (rule Suc.prems)
  have len1: "length arr1 = length arr" by (simp add: arr1_def)
  have lenP: "length P = Suc (Suc i)" using len by (simp add: P_def)
  have nth1: "arr1 ! x = (if x = Suc i then arr ! 0 else if x = 0 then arr ! Suc i else arr ! x)" for x
    using len by (subst arr1_def, subst swap_nth) auto
  have d2: "drop (Suc i) arr2 = arr ! 0 # drop (Suc (Suc i)) arr"
  proof -
    have "drop (Suc i) arr2 = drop (Suc i) arr1"
      unfolding arr2_def using len len1 by (intro down_heap_drop) simp
    also have "\<dots> = arr1 ! Suc i # drop (Suc (Suc i)) arr1"
      using len len1 by (simp add: Cons_nth_drop_Suc)
    also have "drop (Suc (Suc i)) arr1 = drop (Suc (Suc i)) arr"
      by (rule nth_equalityI) (simp_all add: len1 nth1)
    finally show ?thesis by (simp add: nth1)
  qed
  have t1: "take (Suc i) arr1 = butlast (P[0 := P ! (length P - 1)])"
    by (rule nth_equalityI) (use len in \<open>auto simp: len1 lenP nth1 nth_butlast P_def nth_list_update\<close>)
  have t2: "take (Suc i) arr2 = down_heap (butlast (P[0 := P ! (length P - 1)])) 0 (length P - 1)"
    unfolding arr2_def using len len1 by (simp add: down_heap_take t1 lenP)
  have "drain (q\<lparr> pq_arr := P \<rparr>) = pair_of (arr ! 0) # drain (q\<lparr> pq_arr := take (Suc i) arr2 \<rparr>)"
    using lenP by (subst drain_unfold) (auto simp: t2 P_def)
  moreover have "map pair_of (sort_loop arr2 i)
      = rev (drain (q\<lparr> pq_arr := take (Suc i) arr2 \<rparr>)) @ map pair_of (drop (Suc i) arr2)"
    using len len1 by (intro Suc.IH) (simp add: arr2_def)
  moreover have "sort_loop arr (Suc i) = sort_loop arr2 i"
    by (simp add: arr2_def arr1_def)
  ultimately show ?case
    by (simp add: d2 P_def)
qed

lemma drain_build_rev_sort:
  fixes xs :: "('p::linorder, 'v) entry list"
  shows "drain (ip_build q xs) = rev (map pair_of (pq_sort (q\<lparr> pq_arr := xs \<rparr>)))"
proof -
  define n where "n = length xs"
  define arr where "arr = ip_build_loop xs n (n div 2)"
  have la: "length arr = n" by (simp add: arr_def n_def)
  have ib: "ip_build q xs = q\<lparr> pq_arr := arr \<rparr>"
    by (simp add: ip_build_def Let_def arr_def n_def)
  have ps: "pq_sort (q\<lparr> pq_arr := xs \<rparr>) = sort_loop arr (n - 1)"
    by (simp add: pq_sort_def Let_def pq_get_size_def arr_def n_def)
  show ?thesis
  proof (cases "n = 0")
    case True
    with la show ?thesis unfolding ib ps by (subst drain_unfold) simp
  next
    case False
    with la have "n - 1 < length arr" "Suc (n - 1) = n" by simp_all
    from sort_loop_drain[OF this(1), of q] this(2) la
    have "map pair_of (sort_loop arr (n - 1)) = rev (drain (q\<lparr> pq_arr := arr \<rparr>))"
      by simp
    then show ?thesis unfolding ib ps by simp
  qed
qed

lemma sorted_same_mset:
  fixes xs ys :: "('a::linorder) list"
  assumes "sorted xs" "sorted ys" "mset xs = mset ys"
  shows "xs = ys"
proof -
  from properties_for_sort[OF assms(3)[symmetric] assms(2)] have "sort xs = ys"
    by simp
  moreover from properties_for_sort[OF refl assms(1)] have "sort xs = xs" .
  ultimately show ?thesis by simp
qed

text \<open>
  Claim C6, as amended. Take any sequence of (priority, value) entries and any queue holding
  the same multiset of entries, in whatever arrangement. \<open>ip_build\<close> on the sequence
  followed by draining with \<open>remove_min\<close> yields the same multiset of pairs as the
  array that \<open>sort\<close> produces on that queue, and the priorities of the drained pairs are
  the priorities of the sorted array read in exactly the reverse order. When the queue
  holds the very same sequence, the drained pairs themselves are the sorted array read in
  reverse.
\<close>

theorem build_drain_reverse_of_sort:
  fixes xs ys :: "('p::linorder, 'v) entry list"
  assumes "mset xs = mset ys"
  shows "map fst (drain (ip_build q xs)) = rev (map get_key (pq_sort (q'\<lparr> pq_arr := ys \<rparr>)))
       \<and> mset (drain (ip_build q xs)) = mset (map pair_of (pq_sort (q'\<lparr> pq_arr := ys \<rparr>)))
       \<and> drain (ip_build q xs) = rev (map pair_of (pq_sort (q\<lparr> pq_arr := xs \<rparr>)))"
proof -
  from drain_heap[OF ip_build_is_heap(1), of q xs] ip_build_is_heap(2)[of q xs]
  have ds: "sorted (map fst (drain (ip_build q xs)))"
    and dm: "mset (drain (ip_build q xs)) = mset (map pair_of xs)"
    by simp_all
  have ss: "sorted (rev (map get_key (pq_sort (q'\<lparr> pq_arr := ys \<rparr>))))"
  proof -
    have "sorted_wrt (\<lambda>a b. b \<le> a) (map get_key (pq_sort (q'\<lparr> pq_arr := ys \<rparr>)))"
      using pq_sort_descending(1)[of "q'\<lparr> pq_arr := ys \<rparr>"] by (simp add: sorted_wrt_map)
    then show ?thesis by (simp add: sorted_wrt_rev)
  qed
  have sm: "mset (pq_sort (q'\<lparr> pq_arr := ys \<rparr>)) = mset ys"
    using pq_sort_descending(2)[of "q'\<lparr> pq_arr := ys \<rparr>"] by simp
  have fp: "fst \<circ> pair_of = (get_key :: ('p, 'v) entry \<Rightarrow> 'p)"
    by (rule ext) (simp add: pair_of_def)
  have "mset (map fst (drain (ip_build q xs))) = image_mset fst (mset (drain (ip_build q xs)))"
    by simp
  also have "\<dots> = image_mset get_key (mset xs)"
    by (simp only: dm mset_map multiset.map_comp fp)
  also have "\<dots> = mset (rev (map get_key (pq_sort (q'\<lparr> pq_arr := ys \<rparr>))))"
    by (simp add: sm assms)
  finally have "map fst (drain (ip_build q xs)) = rev (map get_key (pq_sort (q'\<lparr> pq_arr := ys \<rparr>)))"
    by (rule sorted_same_mset[OF ds ss])
  moreover have "mset (drain (ip_build q xs)) = mset (map pair_of (pq_sort (q'\<lparr> pq_arr := ys \<rparr>)))"
    by (simp add: dm sm assms)
  ultimately show ?thesis using drain_build_rev_sort[of q xs] by simp
qed


text \<open>
  The amended statement applied to two arrangements of the same three entries, two of them
  with the same priority.
\<close>

theorem build_drain_reverse_of_sort_witness:
  "mset [Entry (2::nat) ''b'', Entry 1 ''a'', Entry 1 ''c'']
     = mset [Entry 1 ''c'', Entry (2::nat) ''b'', Entry 1 ''a'']
   \<and> map fst (drain (ip_build PriorityQueue_init [Entry (2::nat) ''b'', Entry 1 ''a'', Entry 1 ''c'']))
     = rev (map get_key (pq_sort \<lparr> pq_arr = [Entry 1 ''c'', Entry (2::nat) ''b'', Entry 1 ''a''],
                                    pq_max_priority = 0 \<rparr>))
   \<and> mset (drain (ip_build PriorityQueue_init [Entry (2::nat) ''b'', Entry 1 ''a'', Entry 1 ''c'']))
     = mset (map pair_of (pq_sort \<lparr> pq_arr = [Entry 1 ''c'', Entry (2::nat) ''b'', Entry 1 ''a''],
                                      pq_max_priority = 0 \<rparr>))"
proof -
  let ?xs = "[Entry (2::nat) ''b'', Entry 1 ''a'', Entry 1 ''c'']"
  let ?ys = "[Entry 1 ''c'', Entry (2::nat) ''b'', Entry 1 ''a'']"
  have m: "mset ?xs = mset ?ys" by simp
  have q: "PriorityQueue_init\<lparr> pq_arr := ?ys \<rparr> = \<lparr> pq_arr = ?ys, pq_max_priority = 0 \<rparr>"
    by (simp add: PriorityQueue_init_def)
  from build_drain_reverse_of_sort[OF m, of PriorityQueue_init PriorityQueue_init] m
  show ?thesis unfolding q by blast
qed

text \<open>
  Claim C6 as stated fails: on the two entries with priorities 1 and 2 the drained order
  differs from the order of the sorted array. And among entries of equal priority even the
  reversed order of the pairs depends on the arrangement: the pairs drained after
  \<open>ip_build\<close> on \<open>[(1, a), (1, b)]\<close> are not the reverse of what \<open>sort\<close> returns on a queue
  holding the same two entries arranged as \<open>[(1, b), (1, a)]\<close>; only the priorities agree.
\<close>

theorem build_drain_not_same_order_as_sort:
  "drain (ip_build PriorityQueue_init [Entry (1::nat) ''a'', Entry 2 ''b''])
     \<noteq> map pair_of (pq_sort \<lparr> pq_arr = [Entry (1::nat) ''a'', Entry 2 ''b''], pq_max_priority = 0 \<rparr>)
   \<and> mset [Entry (1::nat) ''a'', Entry 1 ''b''] = mset [Entry (1::nat) ''b'', Entry 1 ''a'']
   \<and> drain (ip_build PriorityQueue_init [Entry (1::nat) ''a'', Entry 1 ''b''])
     \<noteq> rev (map pair_of (pq_sort \<lparr> pq_arr = [Entry (1::nat) ''b'', Entry 1 ''a''], pq_max_priority = 0 \<rparr>))"
  by code_simp

section \<open>Map: lookups, removal and resizing\<close>

definition chain_of :: "('k, 'v) dll option \<Rightarrow> ('k, 'v) dll" where
  "chain_of b = (case b of None \<Rightarrow> [] | Some chain \<Rightarrow> chain)"

definition chain_lookup :: "('k, 'v) dll \<Rightarrow> 'k \<Rightarrow> 'v option" where
  "chain_lookup chain = map_of (map pair_of chain)"

definition m_lookup :: "('k \<Rightarrow> nat list) \<Rightarrow> ('k, 'v) hash_map \<Rightarrow> 'k \<Rightarrow> 'v option" where
  "m_lookup ba m k = chain_lookup (chain_of (m_buckets m ! m_hash ba m k)) k"

definition chain_ok :: "('k \<Rightarrow> nat) \<Rightarrow> nat \<Rightarrow> ('k, 'v) dll \<Rightarrow> bool" where
  "chain_ok H h chain \<longleftrightarrow> distinct (map get_key chain) \<and> (\<forall>e\<in>set chain. H (get_key e) = h)"

definition m_invar :: "('k \<Rightarrow> nat list) \<Rightarrow> ('k, 'v) hash_map \<Rightarrow> bool" where
  "m_invar ba m \<longleftrightarrow>
     0 < m_capacity m \<and> length (m_buckets m) = m_capacity m \<and> (\<forall>p\<in>set (m_primes m). 0 < p) \<and>
     (\<forall>h<m_capacity m. chain_ok (m_hash ba m) h (chain_of (m_buckets m ! h)))"

lemma chain_of_simps [simp]: "chain_of None = []" "chain_of (Some c) = c"
  by (simp_all add: chain_of_def)

lemma all_entries_chain_of: "all_entries bs = concat (map chain_of bs)"
  by (simp add: all_entries_def chain_of_def[abs_def])

lemma chain_lookup_Nil [simp]: "chain_lookup [] k = None"
  by (simp add: chain_lookup_def)

lemma chain_lookup_Cons:
  "chain_lookup (e # c) k = (if get_key e = k then Some (get_value e) else chain_lookup c k)"
  by (simp add: chain_lookup_def pair_of_def)

lemma chain_exists_iff: "chain_exists c k \<longleftrightarrow> k \<in> get_key ` set c"
  by (induction c) auto

lemma chain_lookup_None_iff: "chain_lookup c k = None \<longleftrightarrow> k \<notin> get_key ` set c"
  by (induction c) (auto simp: chain_lookup_Cons)

lemma chain_find:
  "(if chain_exists c k
    then (case find_and_return_element c k of None \<Rightarrow> None | Some e \<Rightarrow> Some (get_value e))
    else None) = chain_lookup c k"
  by (induction c) (auto simp: chain_lookup_Cons)

lemma m_find_lookup: "m_find ba m k = m_lookup ba m k"
proof (cases "m_buckets m ! m_hash ba m k")
  case None
  then show ?thesis
    by (simp add: m_find_def m_getitem_def m_lookup_def m_exists_def Let_def)
next
  case (Some c)
  with chain_find[of c k] show ?thesis
    by (auto simp: m_find_def m_getitem_def m_lookup_def m_exists_def Let_def split: if_splits)
qed

lemma m_hash_less: "0 < m_capacity m \<Longrightarrow> m_hash ba m k < m_capacity m"
  by (simp add: m_hash_def Let_def)

lemma m_hash_cong:
  "m_capacity m' = m_capacity m \<Longrightarrow> m_a m' = m_a m \<Longrightarrow> m_b m' = m_b m \<Longrightarrow> m_p m' = m_p m
    \<Longrightarrow> m_hash ba m' = m_hash ba m"
  by (rule ext) (simp add: m_hash_def)

text \<open>Chain-level effects of the three list operations.\<close>

lemma chain_ok_Nil [simp]: "chain_ok H h []"
  by (simp add: chain_ok_def)

lemma chain_ok_Cons:
  "chain_ok H h c \<Longrightarrow> H (get_key e) = h \<Longrightarrow> get_key e \<notin> get_key ` set c \<Longrightarrow> chain_ok H h (e # c)"
  by (auto simp: chain_ok_def)

lemma update_first_keys:
  "update_first c e = (c', r) \<Longrightarrow> map get_key c' = map get_key c"
  by (induction c arbitrary: c' r) (auto split: if_splits prod.splits)

lemma update_first_lookup:
  "update_first c e = (c', r) \<Longrightarrow> get_key e \<in> get_key ` set c \<Longrightarrow>
    chain_lookup c' = (chain_lookup c)(get_key e \<mapsto> get_value e) \<and> r = chain_lookup c (get_key e)"
proof (induction c arbitrary: c' r)
  case Nil
  then show ?case by simp
next
  case (Cons x c)
  show ?case
  proof (cases "get_key x = get_key e")
    case True
    with Cons.prems show ?thesis
      by (auto simp: chain_lookup_Cons fun_eq_iff)
  next
    case False
    with Cons.prems obtain c1 where u: "update_first c e = (c1, r)" and c': "c' = x # c1"
      by (auto split: prod.splits)
    from False Cons.prems(2) have "get_key e \<in> get_key ` set c" by auto
    from Cons.IH[OF u this] False show ?thesis
      by (auto simp: c' chain_lookup_Cons fun_eq_iff)
  qed
qed

lemma update_all_keys: "map get_key (update_all c e) = map get_key c"
  by (induction c) auto

lemma update_all_lookup:
  "distinct (map get_key c) \<Longrightarrow> get_key e \<in> get_key ` set c \<Longrightarrow>
    chain_lookup (update_all c e) = (chain_lookup c)(get_key e \<mapsto> get_value e)"
proof (induction c)
  case Nil
  then show ?case by simp
next
  case (Cons x c)
  show ?case
  proof (cases "get_key x = get_key e")
    case True
    with Cons.prems(1) have "get_key e \<notin> get_key ` set c" by auto
    then have "update_all c e = c" by (induction c) auto
    with True show ?thesis by (auto simp: chain_lookup_Cons fun_eq_iff)
  next
    case False
    with Cons show ?thesis by (auto simp: chain_lookup_Cons fun_eq_iff)
  qed
qed

lemma remove_element_keys:
  "set (map get_key (find_and_remove_element c k)) \<subseteq> set (map get_key c)"
  by (induction c) auto

lemma remove_element_distinct:
  "distinct (map get_key c) \<Longrightarrow> distinct (map get_key (find_and_remove_element c k))"
proof (induction c)
  case Nil
  then show ?case by simp
next
  case (Cons x c)
  with remove_element_keys[of c k] show ?case by auto
qed

lemma remove_element_set: "set (find_and_remove_element c k) \<subseteq> set c"
  by (induction c) auto

lemma remove_element_absent:
  "k \<notin> get_key ` set c \<Longrightarrow> find_and_remove_element c k = c"
  by (induction c) auto

lemma remove_element_lookup:
  "distinct (map get_key c) \<Longrightarrow> chain_lookup (find_and_remove_element c k) = (chain_lookup c)(k := None)"
proof (induction c)
  case Nil
  then show ?case by (simp add: fun_eq_iff)
next
  case (Cons x c)
  show ?case
  proof (cases "get_key x = k")
    case True
    with Cons.prems have "k \<notin> get_key ` set c" by auto
    then have "chain_lookup c k = None" by (simp add: chain_lookup_None_iff)
    with True show ?thesis by (auto simp: chain_lookup_Cons fun_eq_iff)
  next
    case False
    with Cons show ?thesis by (auto simp: chain_lookup_Cons fun_eq_iff)
  qed
qed

lemma chain_ok_sub:
  "chain_ok H h c \<Longrightarrow> distinct (map get_key c') \<Longrightarrow> set c' \<subseteq> set c \<Longrightarrow> chain_ok H h c'"
  by (auto simp: chain_ok_def)

lemma chain_ok_same_keys:
  "chain_ok H h c \<Longrightarrow> map get_key c' = map get_key c \<Longrightarrow> chain_ok H h c'"
  unfolding chain_ok_def by (metis (no_types, lifting) image_iff list.set_map)

text \<open>Replacing the chain of one bucket.\<close>

lemma bucket_update:
  assumes inv: "m_invar ba m" and h: "h < m_capacity m"
    and b: "m_buckets m' = (m_buckets m)[h := Some c']"
    and same: "m_capacity m' = m_capacity m" "m_a m' = m_a m" "m_b m' = m_b m" "m_p m' = m_p m"
      "m_primes m' = m_primes m"
    and ok: "chain_ok (m_hash ba m) h c'"
  shows "m_invar ba m'"
    and "m_lookup ba m' k = (if m_hash ba m k = h then chain_lookup c' k else m_lookup ba m k)"
proof -
  have hc: "m_hash ba m' = m_hash ba m" using same by (intro m_hash_cong) simp_all
  from inv have len: "length (m_buckets m) = m_capacity m" by (simp add: m_invar_def)
  have nth: "chain_of (m_buckets m' ! i) = (if i = h then c' else chain_of (m_buckets m ! i))"
    if "i < m_capacity m" for i
    using that h len by (simp add: b nth_list_update)
  have "chain_ok (m_hash ba m) i (chain_of (m_buckets m' ! i))" if "i < m_capacity m" for i
    using that inv ok by (auto simp: nth m_invar_def)
  then show "m_invar ba m'"
    using inv unfolding m_invar_def hc same by (simp add: b)
  have "m_hash ba m k < m_capacity m" using inv by (simp add: m_invar_def m_hash_less)
  then show "m_lookup ba m' k = (if m_hash ba m k = h then chain_lookup c' k else m_lookup ba m k)"
    by (simp add: m_lookup_def hc nth)
qed

lemma insert_here_correct:
  assumes inv: "m_invar ba m" and ih: "insert_here ba m e = (m', r)"
  shows "m_invar ba m'"
    and "m_lookup ba m' = (m_lookup ba m)(get_key e \<mapsto> get_value e)"
    and "r = m_lookup ba m (get_key e)"
    and "m_capacity m' = m_capacity m" "m_resizes_done m' = m_resizes_done m"
    and "m_primes m' = m_primes m" "m_a m' = m_a m" "m_b m' = m_b m" "m_p m' = m_p m"
proof -
  define h where "h = m_hash ba m (get_key e)"
  define c where "c = chain_of (m_buckets m ! h)"
  have hl: "h < m_capacity m" using inv by (simp add: h_def m_invar_def m_hash_less)
  from inv hl have cok: "chain_ok (m_hash ba m) h c" by (simp add: m_invar_def c_def)
  have lk: "m_lookup ba m k = chain_lookup c k" if "m_hash ba m k = h" for k
    using that by (simp add: m_lookup_def c_def)
  have ex: "m_exists ba m (get_key e) \<longleftrightarrow> get_key e \<in> get_key ` set c"
    by (cases "m_buckets m ! h") (simp_all add: m_exists_def h_def[symmetric] c_def chain_exists_iff)
  consider (new) "get_key e \<notin> get_key ` set c"
      "m_buckets m' = (m_buckets m)[h := Some (e # c)]"
      "r = None"
    | (upd) c1 where "get_key e \<in> get_key ` set c" "update_first c e = (c1, r)"
      "m_buckets m' = (m_buckets m)[h := Some c1]"
  proof (cases "m_buckets m ! h")
    case None
    then have "c = []" by (simp add: c_def)
    with None ih new show ?thesis
      by (auto simp: insert_here_def h_def[symmetric] Let_def insert_to_front_def)
  next
    case (Some cb)
    then have cc: "c = cb" by (simp add: c_def)
    show ?thesis
    proof (cases "get_key e \<in> get_key ` set c")
      case False
      with Some ih ex cc new show ?thesis
        by (auto simp: insert_here_def h_def[symmetric] Let_def insert_to_front_def)
    next
      case True
      obtain c1 r1 where u: "update_first c e = (c1, r1)" by (cases "update_first c e")
      with Some ih ex cc True upd show ?thesis
        by (auto simp: insert_here_def h_def[symmetric] Let_def)
    qed
  qed
  note cases = this
  have same: "m_capacity m' = m_capacity m" "m_a m' = m_a m" "m_b m' = m_b m" "m_p m' = m_p m"
      "m_primes m' = m_primes m" "m_resizes_done m' = m_resizes_done m"
    using ih by (auto simp: insert_here_def Let_def split: option.splits if_splits prod.splits)
  then show "m_capacity m' = m_capacity m" "m_resizes_done m' = m_resizes_done m"
    "m_primes m' = m_primes m" "m_a m' = m_a m" "m_b m' = m_b m" "m_p m' = m_p m"
    by simp_all
  from cases show "m_invar ba m'"
  proof cases
    case new
    have "chain_ok (m_hash ba m) h (e # c)"
      using cok new(1) by (intro chain_ok_Cons) (simp_all add: h_def)
    from bucket_update(1)[OF inv hl new(2) same(1-5) this] show ?thesis .
  next
    case upd
    have "chain_ok (m_hash ba m) h c1"
      using cok update_first_keys[OF upd(2)] by (rule chain_ok_same_keys)
    from bucket_update(1)[OF inv hl upd(3) same(1-5) this] show ?thesis .
  qed
  from cases show "m_lookup ba m' = (m_lookup ba m)(get_key e \<mapsto> get_value e)"
  proof cases
    case new
    have ok: "chain_ok (m_hash ba m) h (e # c)"
      using cok new(1) by (intro chain_ok_Cons) (simp_all add: h_def)
    show ?thesis
    proof (rule ext)
      fix k
      from bucket_update(2)[OF inv hl new(2) same(1-5) ok, of k] lk[of k]
      show "m_lookup ba m' k = ((m_lookup ba m)(get_key e \<mapsto> get_value e)) k"
        by (auto simp: chain_lookup_Cons h_def)
    qed
  next
    case upd
    have ok: "chain_ok (m_hash ba m) h c1"
      using cok update_first_keys[OF upd(2)] by (rule chain_ok_same_keys)
    show ?thesis
    proof (rule ext)
      fix k
      from bucket_update(2)[OF inv hl upd(3) same(1-5) ok, of k] lk[of k]
        update_first_lookup[OF upd(2,1)]
      show "m_lookup ba m' k = ((m_lookup ba m)(get_key e \<mapsto> get_value e)) k"
        by (auto simp: h_def)
    qed
  qed
  from cases show "r = m_lookup ba m (get_key e)"
  proof cases
    case new
    then show ?thesis
      using lk[of "get_key e"] chain_lookup_None_iff[of c "get_key e"] by (simp add: h_def)
  next
    case upd
    with update_first_lookup[OF upd(2,1)] lk[of "get_key e"] show ?thesis by (simp add: h_def)
  qed
qed


declare insert_fuel.simps [simp del] resize_fuel.simps [simp del]

definition upd_entry :: "('k, 'v) entry \<Rightarrow> ('k \<rightharpoonup> 'v) \<Rightarrow> ('k \<rightharpoonup> 'v)" where
  "upd_entry e f = f(get_key e \<mapsto> get_value e)"

definition same_params :: "('k, 'v) hash_map \<Rightarrow> ('k, 'v) hash_map \<Rightarrow> bool" where
  "same_params m m' \<longleftrightarrow>
     m_primes m' = m_primes m \<and> m_a m' = m_a m \<and> m_b m' = m_b m \<and> m_p m' = m_p m \<and>
     m_resizes_done m \<le> m_resizes_done m'"

lemma same_params_refl [simp]: "same_params m m"
  by (simp add: same_params_def)

lemma same_params_trans: "same_params m m1 \<Longrightarrow> same_params m1 m2 \<Longrightarrow> same_params m m2"
  by (auto simp: same_params_def)

lemma insert_here_same_params: "insert_here ba m e = (m', r) \<Longrightarrow> same_params m m'"
  by (auto simp: insert_here_def same_params_def Let_def split: option.splits if_splits prod.splits)

text \<open>The entries of all buckets carry pairwise different keys.\<close>

lemma entries_distinct_aux:
  "(\<forall>i<length bs. chain_ok H (off + i) (chain_of (bs ! i))) \<Longrightarrow>
     distinct (map get_key (concat (map chain_of bs))) \<and>
     (\<forall>e\<in>set (concat (map chain_of bs)). off \<le> H (get_key e))"
proof (induction bs arbitrary: off)
  case Nil
  then show ?case by simp
next
  case (Cons b bs)
  from Cons.prems have b: "chain_ok H off (chain_of b)" by fastforce
  have "\<forall>i<length bs. chain_ok H (Suc off + i) (chain_of (bs ! i))"
    using Cons.prems by fastforce
  from Cons.IH[OF this]
  have d: "distinct (map get_key (concat (map chain_of bs)))"
    and ge: "\<forall>e\<in>set (concat (map chain_of bs)). Suc off \<le> H (get_key e)"
    by simp_all
  have disj: "get_key ` set (chain_of b) \<inter> get_key ` set (concat (map chain_of bs)) = {}"
  proof (rule ccontr)
    assume "get_key ` set (chain_of b) \<inter> get_key ` set (concat (map chain_of bs)) \<noteq> {}"
    then obtain e1 e2 where "e1 \<in> set (chain_of b)" "e2 \<in> set (concat (map chain_of bs))"
      "get_key e1 = get_key e2" by (auto simp: image_iff)
    moreover from this(1) b have "H (get_key e1) = off" by (simp add: chain_ok_def)
    moreover from \<open>e2 \<in> set (concat (map chain_of bs))\<close> ge have "Suc off \<le> H (get_key e2)" by blast
    ultimately show False by simp
  qed
  from b have "\<forall>e\<in>set (chain_of b). off \<le> H (get_key e)" by (simp add: chain_ok_def)
  with b d ge disj show ?case
    by (auto simp: chain_ok_def Suc_leD)
qed

lemma entries_distinct:
  assumes "m_invar ba m"
  shows "distinct (map get_key (all_entries (m_buckets m)))"
proof -
  from assms have "\<forall>i<length (m_buckets m). chain_ok (m_hash ba m) (0 + i) (chain_of (m_buckets m ! i))"
    by (simp add: m_invar_def)
  from entries_distinct_aux[OF this] show ?thesis by (simp add: all_entries_chain_of)
qed

lemma entries_member:
  "e \<in> set (all_entries bs) \<longleftrightarrow> (\<exists>i<length bs. e \<in> set (chain_of (bs ! i)))"
proof -
  have "e \<in> set (all_entries bs) \<longleftrightarrow> (\<exists>b\<in>set bs. e \<in> set (chain_of b))"
    by (simp add: all_entries_chain_of)
  also have "\<dots> \<longleftrightarrow> (\<exists>i<length bs. e \<in> set (chain_of (bs ! i)))"
    by (metis in_set_conv_nth)
  finally show ?thesis .
qed

lemma chain_lookup_Some_iff:
  "distinct (map get_key c) \<Longrightarrow> chain_lookup c k = Some v \<longleftrightarrow> (\<exists>e\<in>set c. get_key e = k \<and> get_value e = v)"
proof -
  assume "distinct (map get_key c)"
  then have "distinct (map fst (map pair_of c))" by (simp add: comp_def pair_of_def)
  then have "chain_lookup c k = Some v \<longleftrightarrow> (k, v) \<in> set (map pair_of c)"
    unfolding chain_lookup_def by (rule map_of_eq_Some_iff)
  then show ?thesis by (auto simp: pair_of_def)
qed

lemma entries_lookup:
  assumes inv: "m_invar ba m"
  shows "chain_lookup (all_entries (m_buckets m)) k = m_lookup ba m k"
proof -
  have hk: "m_hash ba m k < m_capacity m" using inv by (simp add: m_invar_def m_hash_less)
  have len: "length (m_buckets m) = m_capacity m" using inv by (simp add: m_invar_def)
  have ok: "chain_ok (m_hash ba m) i (chain_of (m_buckets m ! i))" if "i < m_capacity m" for i
    using inv that by (simp add: m_invar_def)
  have "chain_lookup (all_entries (m_buckets m)) k = Some v \<longleftrightarrow> m_lookup ba m k = Some v" for v
  proof -
    have "chain_lookup (all_entries (m_buckets m)) k = Some v
        \<longleftrightarrow> (\<exists>e\<in>set (all_entries (m_buckets m)). get_key e = k \<and> get_value e = v)"
      by (rule chain_lookup_Some_iff[OF entries_distinct[OF inv]])
    also have "\<dots> \<longleftrightarrow> (\<exists>e\<in>set (chain_of (m_buckets m ! m_hash ba m k)). get_key e = k \<and> get_value e = v)"
    proof
      assume "\<exists>e\<in>set (all_entries (m_buckets m)). get_key e = k \<and> get_value e = v"
      then obtain e i where e: "get_key e = k" "get_value e = v" "i < m_capacity m"
        "e \<in> set (chain_of (m_buckets m ! i))"
        by (auto simp: entries_member len)
      with ok[of i] have "m_hash ba m k = i" by (auto simp: chain_ok_def)
      with e show "\<exists>e\<in>set (chain_of (m_buckets m ! m_hash ba m k)). get_key e = k \<and> get_value e = v"
        by auto
    next
      assume "\<exists>e\<in>set (chain_of (m_buckets m ! m_hash ba m k)). get_key e = k \<and> get_value e = v"
      then obtain e where e: "e \<in> set (chain_of (m_buckets m ! m_hash ba m k))"
        "get_key e = k" "get_value e = v" by blast
      from e(1) hk have "e \<in> set (all_entries (m_buckets m))"
        unfolding entries_member len by blast
      with e show "\<exists>e\<in>set (all_entries (m_buckets m)). get_key e = k \<and> get_value e = v"
        by blast
    qed
    also have "\<dots> \<longleftrightarrow> m_lookup ba m k = Some v"
      unfolding m_lookup_def using ok[OF hk]
      by (intro chain_lookup_Some_iff[symmetric]) (simp add: chain_ok_def)
    finally show ?thesis .
  qed
  then show ?thesis by (metis option.exhaust)
qed

lemma fold_upd_entry:
  "distinct (map get_key es) \<Longrightarrow>
    fold upd_entry es f k = (case chain_lookup es k of None \<Rightarrow> f k | Some v \<Rightarrow> Some v)"
proof (induction es arbitrary: f)
  case Nil
  then show ?case by simp
next
  case (Cons e es)
  then have "get_key e \<notin> get_key ` set es" by auto
  then have n: "chain_lookup es (get_key e) = None" by (simp add: chain_lookup_None_iff)
  have step: "upd_entry e f k = (if k = get_key e then Some (get_value e) else f k)"
    by (simp add: upd_entry_def)
  from Cons have "fold upd_entry es (upd_entry e f) k
      = (case chain_lookup es k of None \<Rightarrow> upd_entry e f k | Some v \<Rightarrow> Some v)"
    by simp
  with n show ?case
    by (auto simp: chain_lookup_Cons step split: option.splits)
qed

definition insert_post ::
  "('k \<Rightarrow> nat list) \<Rightarrow> ('k, 'v) hash_map \<Rightarrow> ('k, 'v) entry \<Rightarrow> ('k, 'v) hash_map \<Rightarrow> 'v option \<Rightarrow> bool" where
  "insert_post ba m e m' r \<longleftrightarrow>
     m_invar ba m' \<and> m_lookup ba m' = upd_entry e (m_lookup ba m) \<and> r = m_lookup ba m (get_key e) \<and>
     same_params m m'"

definition rehash_post ::
  "('k \<Rightarrow> nat list) \<Rightarrow> ('k, 'v) hash_map \<Rightarrow> ('k, 'v) entry list \<Rightarrow> ('k, 'v) hash_map \<Rightarrow> bool" where
  "rehash_post ba m es m' \<longleftrightarrow>
     m_invar ba m' \<and> m_lookup ba m' = fold upd_entry es (m_lookup ba m) \<and> same_params m m'"

lemma insert_here_post:
  "m_invar ba m \<Longrightarrow> insert_here ba m e = (m', r) \<Longrightarrow> insert_post ba m e m' r"
  unfolding insert_post_def upd_entry_def
  using insert_here_correct(1,2,3)[of ba m e m' r] insert_here_same_params[of ba m e m' r]
  by simp

lemma resized_empty:
  assumes "m_invar ba m" "m_resizes_done m < length (m_primes m)"
    and "m1 = m\<lparr> m_capacity := m_primes m ! m_resizes_done m,
                  m_load_factor := lf,
                  m_resizes_done := m_resizes_done m + 1,
                  m_buckets := replicate (m_primes m ! m_resizes_done m) None,
                  m_size := 0 \<rparr>"
  shows "m_invar ba m1" "m_lookup ba m1 = Map.empty" "same_params m m1"
    "m_resizes_done m1 = Suc (m_resizes_done m)"
proof -
  from assms(1,2) have pos: "0 < m_primes m ! m_resizes_done m"
    by (simp add: m_invar_def)
  with assms(1) show "m_invar ba m1"
    by (simp add: m_invar_def assms(3))
  from pos have "m_hash ba m1 k < m_primes m ! m_resizes_done m" for k
    using m_hash_less[of m1 ba k] by (simp add: assms(3))
  then show "m_lookup ba m1 = Map.empty"
    by (auto simp: m_lookup_def assms(3) fun_eq_iff)
  show "same_params m m1" "m_resizes_done m1 = Suc (m_resizes_done m)"
    by (simp_all add: same_params_def assms(3))
qed

lemma fuel_correct:
  "\<forall>m' r. m_invar ba m \<longrightarrow> insert_fuel fuel ba m e = Some (Inr (m', r)) \<longrightarrow> insert_post ba m e m' r"
  "\<forall>m'. m_invar ba m \<longrightarrow> resize_fuel fuel ba m = Some (Inr m') \<longrightarrow>
     m_invar ba m' \<and> m_lookup ba m' = m_lookup ba m \<and> same_params m m'
     \<and> m_resizes_done m < m_resizes_done m'"
  "\<forall>m'. m_invar ba m \<longrightarrow> rehash_fuel fuel ba m es = Some (Inr m') \<longrightarrow> rehash_post ba m es m'"
proof (induction fuel ba m e and fuel ba m and fuel ba m es
    rule: insert_fuel_resize_fuel_rehash_fuel.induct)
  case (1 fuel ba m entry)
  show ?case
  proof (intro allI impI)
    fix m' r
    assume inv: "m_invar ba m" and r: "insert_fuel fuel ba m entry = Some (Inr (m', r))"
    show "insert_post ba m entry m' r"
    proof (cases "9 / 10 \<le> m_load_factor m")
      case False
      with r have "insert_here ba m entry = (m', r)" by (simp add: insert_fuel.simps)
      with inv show ?thesis by (rule insert_here_post)
    next
      case True
      with r obtain f' m1 where f: "fuel = Suc f'" and rs: "resize_fuel f' ba m = Some (Inr m1)"
        and ih: "insert_here ba m1 entry = (m', r)"
        by (auto simp: insert_fuel.simps split: nat.splits option.splits sum.splits)
      from 1[OF True f] inv rs have m1: "m_invar ba m1" "m_lookup ba m1 = m_lookup ba m"
        "same_params m m1" by blast+
      from insert_here_post[OF m1(1) ih] m1(2,3) show ?thesis
        by (auto simp: insert_post_def intro: same_params_trans)
    qed
  qed
next
  case (2 fuel ba m)
  show ?case
  proof (intro allI impI)
    fix m'
    assume inv: "m_invar ba m" and r: "resize_fuel fuel ba m = Some (Inr m')"
    define m1 where "m1 = m\<lparr> m_capacity := m_primes m ! m_resizes_done m,
        m_load_factor := of_int (m_size m) / of_nat (m_primes m ! m_resizes_done m),
        m_resizes_done := m_resizes_done m + 1,
        m_buckets := replicate (m_primes m ! m_resizes_done m) None,
        m_size := 0 \<rparr>"
    from r have lt: "m_resizes_done m < length (m_primes m)"
      by (auto simp: resize_fuel.simps split: if_splits)
    with r have rh: "rehash_fuel fuel ba m1 (all_entries (m_buckets m)) = Some (Inr m')"
      by (simp add: resize_fuel.simps Let_def m1_def)
    note e = resized_empty[OF inv lt m1_def]
    from 2[OF lt refl refl m1_def] e(1) rh
    have post: "rehash_post ba m1 (all_entries (m_buckets m)) m'" by blast
    have "m_lookup ba m' k = m_lookup ba m k" for k
    proof -
      have "m_lookup ba m' k = fold upd_entry (all_entries (m_buckets m)) Map.empty k"
        using post e(2) by (simp add: rehash_post_def)
      also have "\<dots> = chain_lookup (all_entries (m_buckets m)) k"
        by (simp add: fold_upd_entry[OF entries_distinct[OF inv]] split: option.splits)
      also have "\<dots> = m_lookup ba m k" by (rule entries_lookup[OF inv])
      finally show ?thesis .
    qed
    then have "m_lookup ba m' = m_lookup ba m" by (rule ext)
    moreover have "same_params m m'" "m_resizes_done m < m_resizes_done m'"
      using post e(3,4) by (auto simp: rehash_post_def same_params_def)
    ultimately show "m_invar ba m' \<and> m_lookup ba m' = m_lookup ba m \<and> same_params m m'
        \<and> m_resizes_done m < m_resizes_done m'"
      using post by (simp add: rehash_post_def)
  qed
next
  case (3 fuel ba m)
  show ?case by (simp add: rehash_post_def)
next
  case (4 fuel ba m entry entries)
  show ?case
  proof (intro allI impI)
    fix m'
    assume inv: "m_invar ba m" and r: "rehash_fuel fuel ba m (entry # entries) = Some (Inr m')"
    then obtain m1 r1 where i: "insert_fuel fuel ba m entry = Some (Inr (m1, r1))"
      and rh: "rehash_fuel fuel ba m1 entries = Some (Inr m')"
      by (auto split: option.splits sum.splits prod.splits)
    from 4(1) inv i have p1: "insert_post ba m entry m1 r1" by blast
    then have inv1: "m_invar ba m1" by (simp add: insert_post_def)
    from 4(2)[OF i refl refl] inv1 rh have p2: "rehash_post ba m1 entries m'" by blast
    from p1 p2 show "rehash_post ba m (entry # entries) m'"
      by (auto simp: rehash_post_def insert_post_def intro: same_params_trans)
  qed
qed


lemma m_remove_correct:
  assumes inv: "m_invar ba m"
  shows "m_invar ba (m_remove ba m k)"
    and "m_lookup ba (m_remove ba m k) = (m_lookup ba m)(k := None)"
    and "same_params m (m_remove ba m k)" "m_capacity (m_remove ba m k) = m_capacity m"
proof -
  define h where "h = m_hash ba m k"
  have hl: "h < m_capacity m" using inv by (simp add: h_def m_invar_def m_hash_less)
  show "same_params m (m_remove ba m k)" "m_capacity (m_remove ba m k) = m_capacity m"
    by (auto simp: m_remove_def Let_def same_params_def split: option.splits)
  have "m_invar ba (m_remove ba m k) \<and> m_lookup ba (m_remove ba m k) = (m_lookup ba m)(k := None)"
  proof (cases "m_buckets m ! h")
    case None
    then have "m_remove ba m k = m" by (simp add: m_remove_def h_def[symmetric])
    moreover from None have "m_lookup ba m k = None" by (simp add: m_lookup_def h_def[symmetric])
    ultimately show ?thesis
      using inv by (auto simp: fun_eq_iff)
  next
    case (Some c)
    define m' where "m' = m_remove ba m k"
    from inv hl Some have cok: "chain_ok (m_hash ba m) h c" by (auto simp: m_invar_def)
    have b: "m_buckets m' = (m_buckets m)[h := Some (find_and_remove_element c k)]"
      and same: "m_capacity m' = m_capacity m" "m_a m' = m_a m" "m_b m' = m_b m" "m_p m' = m_p m"
        "m_primes m' = m_primes m"
      using Some by (simp_all add: m'_def m_remove_def h_def[symmetric])
    have ok: "chain_ok (m_hash ba m) h (find_and_remove_element c k)"
      using cok remove_element_set[of c k] remove_element_distinct[of c k]
      by (auto simp: chain_ok_def)
    from bucket_update(1)[OF inv hl b same ok] have "m_invar ba (m_remove ba m k)"
      by (simp add: m'_def)
    moreover have "m_lookup ba (m_remove ba m k) = (m_lookup ba m)(k := None)"
    proof (rule ext)
      fix k'
      have d: "distinct (map get_key c)" using cok by (simp add: chain_ok_def)
      from bucket_update(2)[OF inv hl b same ok, of k'] remove_element_lookup[OF d, of k] Some
      show "m_lookup ba (m_remove ba m k) k' = ((m_lookup ba m)(k := None)) k'"
        by (auto simp: m'_def m_lookup_def h_def)
    qed
    ultimately show ?thesis ..
  qed
  then show "m_invar ba (m_remove ba m k)" "m_lookup ba (m_remove ba m k) = (m_lookup ba m)(k := None)"
    by simp_all
qed

lemma m_setitem_correct:
  assumes inv: "m_invar ba m"
  shows "m_invar ba (m_setitem ba m k v)"
    and "m_lookup ba (m_setitem ba m k v) = (m_lookup ba m)(k \<mapsto> v)"
    and "same_params m (m_setitem ba m k v)" "m_capacity (m_setitem ba m k v) = m_capacity m"
    and "m_resizes_done (m_setitem ba m k v) = m_resizes_done m"
proof -
  define h where "h = m_hash ba m k"
  define c where "c = chain_of (m_buckets m ! h)"
  define m' where "m' = m_setitem ba m k v"
  define c' where "c' = (if k \<in> get_key ` set c then update_all c (Entry k v) else Entry k v # c)"
  have hl: "h < m_capacity m" using inv by (simp add: h_def m_invar_def m_hash_less)
  from inv hl have cok: "chain_ok (m_hash ba m) h c" by (simp add: m_invar_def c_def)
  have ex: "m_exists ba m k \<longleftrightarrow> k \<in> get_key ` set c"
    by (cases "m_buckets m ! h") (simp_all add: m_exists_def h_def[symmetric] c_def chain_exists_iff)
  have b: "m_buckets m' = (m_buckets m)[h := Some c']"
    by (cases "m_buckets m ! h")
      (auto simp: m'_def m_setitem_def Let_def h_def[symmetric] c'_def c_def ex insert_to_front_def)
  have same: "m_capacity m' = m_capacity m" "m_a m' = m_a m" "m_b m' = m_b m" "m_p m' = m_p m"
      "m_primes m' = m_primes m" "m_resizes_done m' = m_resizes_done m"
    by (auto simp: m'_def m_setitem_def Let_def split: option.splits)
  have ok: "chain_ok (m_hash ba m) h c'"
  proof (cases "k \<in> get_key ` set c")
    case True
    then show ?thesis
      using chain_ok_same_keys[OF cok update_all_keys] by (simp add: c'_def)
  next
    case False
    then show ?thesis
      using chain_ok_Cons[OF cok, of "Entry k v"] by (simp add: c'_def h_def)
  qed
  have lk: "chain_lookup c' = (chain_lookup c)(k \<mapsto> v)"
  proof (cases "k \<in> get_key ` set c")
    case True
    with cok update_all_lookup[of c "Entry k v"] show ?thesis
      by (simp add: c'_def chain_ok_def)
  next
    case False
    then show ?thesis by (auto simp: c'_def chain_lookup_Cons fun_eq_iff)
  qed
  from bucket_update(1)[OF inv hl b same(1-5) ok] show "m_invar ba (m_setitem ba m k v)"
    by (simp add: m'_def)
  show "m_lookup ba (m_setitem ba m k v) = (m_lookup ba m)(k \<mapsto> v)"
  proof (rule ext)
    fix k'
    from bucket_update(2)[OF inv hl b same(1-5) ok, of k'] lk
    show "m_lookup ba (m_setitem ba m k v) k' = ((m_lookup ba m)(k \<mapsto> v)) k'"
      by (auto simp: m'_def m_lookup_def h_def c_def)
  qed
  from same show "same_params m (m_setitem ba m k v)" "m_capacity (m_setitem ba m k v) = m_capacity m"
    "m_resizes_done (m_setitem ba m k v) = m_resizes_done m"
    by (simp_all add: m'_def same_params_def)
qed

lemma m_insert_correct:
  assumes "m_invar ba m" "m_insert ba m e = Some (Inr (m', r))"
  shows "m_invar ba m'" "m_lookup ba m' = (m_lookup ba m)(get_key e \<mapsto> get_value e)"
    "r = m_lookup ba m (get_key e)" "same_params m m'"
  using fuel_correct(1)[of ba m _ e] assms
  by (auto simp: m_insert_def insert_post_def upd_entry_def)

text \<open>The abstract reading of a sequence of operations: a finite map from keys to values.\<close>

fun spec_step :: "('k, 'v) map_op \<Rightarrow> ('k \<rightharpoonup> 'v) \<Rightarrow> ('k \<rightharpoonup> 'v)" where
  "spec_step (Insert k v) f = f(k \<mapsto> v)"
| "spec_step (InsertKV k v) f = f(k \<mapsto> v)"
| "spec_step (SetItem k v) f = f(k \<mapsto> v)"
| "spec_step (Remove k) f = f(k := None)"

definition spec_run :: "('k, 'v) map_op list \<Rightarrow> ('k \<rightharpoonup> 'v) \<Rightarrow> ('k \<rightharpoonup> 'v)" where
  "spec_run ops f = fold spec_step ops f"

fun op_key :: "('k, 'v) map_op \<Rightarrow> 'k" where
  "op_key (Insert k v) = k"
| "op_key (InsertKV k v) = k"
| "op_key (SetItem k v) = k"
| "op_key (Remove k) = k"

lemma spec_run_Nil: "spec_run [] f = f"
  by (simp add: spec_run_def)

lemma spec_run_Cons: "spec_run (op # ops) f = spec_run ops (spec_step op f)"
  by (simp add: spec_run_def)

lemma m_step_refines:
  assumes "m_invar ba m"
    and "m_run ba m (op # ops) = Some (Inr m')"
  obtains m1 where "m_invar ba m1" "m_lookup ba m1 = spec_step op (m_lookup ba m)"
    "same_params m m1" "m_run ba m1 ops = Some (Inr m')"
proof (cases op)
  case (Insert k v)
  with assms(2) obtain m1 r where i: "m_insert ba m (Entry k v) = Some (Inr (m1, r))"
    and rest: "m_run ba m1 ops = Some (Inr m')"
    by (auto split: option.splits sum.splits prod.splits)
  from m_insert_correct[OF assms(1) i] rest Insert that show ?thesis by simp
next
  case (InsertKV k v)
  with assms(2) obtain m1 r where i: "m_insert ba m (Entry k v) = Some (Inr (m1, r))"
    and rest: "m_run ba m1 ops = Some (Inr m')"
    by (auto simp: insert_kv_def split: option.splits sum.splits prod.splits)
  from m_insert_correct[OF assms(1) i] rest InsertKV that show ?thesis by simp
next
  case (SetItem k v)
  with assms(2) have rest: "m_run ba (m_setitem ba m k v) ops = Some (Inr m')" by simp
  from m_setitem_correct(1,2,3)[OF assms(1), of k v] rest SetItem that show ?thesis by simp
next
  case (Remove k)
  with assms(2) have rest: "m_run ba (m_remove ba m k) ops = Some (Inr m')" by simp
  from m_remove_correct(1,2,3)[OF assms(1), of k] rest Remove that show ?thesis by simp
qed

lemma m_run_refines:
  "m_invar ba m \<Longrightarrow> m_run ba m ops = Some (Inr m') \<Longrightarrow>
     m_invar ba m' \<and> m_lookup ba m' = spec_run ops (m_lookup ba m) \<and> same_params m m'"
proof (induction ops arbitrary: m)
  case Nil
  then show ?case by (simp add: spec_run_Nil)
next
  case (Cons op ops)
  from m_step_refines[OF Cons.prems] obtain m1 where m1: "m_invar ba m1"
    "m_lookup ba m1 = spec_step op (m_lookup ba m)" "same_params m m1"
    "m_run ba m1 ops = Some (Inr m')" by blast
  from Cons.IH[OF m1(1,4)] have "m_invar ba m'" "m_lookup ba m' = spec_run ops (m_lookup ba m1)"
    "same_params m1 m'" by blast+
  with m1(2,3) show ?case
    by (simp only: spec_run_Cons) (blast intro: same_params_trans)
qed

lemma Map_init_invar: "m_invar ba (Map_init a b)"
  by (simp add: m_invar_def Map_init_def)

lemma Map_init_lookup: "m_lookup ba (Map_init a b) = Map.empty"
proof
  fix k
  have "m_hash ba (Map_init a b :: ('a, 'b) hash_map) k < 557"
    using m_hash_less[of "Map_init a b :: ('a, 'b) hash_map" ba k] by (simp add: Map_init_def)
  then show "m_lookup ba (Map_init a b :: ('a, 'b) hash_map) k = None"
    by (simp add: m_lookup_def Map_init_def)
qed

lemma spec_run_append: "spec_run (xs @ ys) f = spec_run ys (spec_run xs f)"
  by (simp add: spec_run_def)

lemma spec_step_untouched: "op_key op \<noteq> k \<Longrightarrow> spec_step op f k = f k"
  by (cases op) simp_all

lemma spec_run_untouched: "\<forall>op\<in>set ops. op_key op \<noteq> k \<Longrightarrow> spec_run ops f k = f k"
proof (induction ops arbitrary: f)
  case Nil
  then show ?case by (simp add: spec_run_Nil)
next
  case (Cons op ops)
  then have "spec_run ops (spec_step op f) k = spec_step op f k" by simp
  with Cons.prems show ?case by (simp add: spec_run_Cons spec_step_untouched)
qed


definition remaining :: "('k, 'v) hash_map \<Rightarrow> nat" where
  "remaining m = length (m_primes m) - m_resizes_done m"

lemma same_params_remaining: "same_params m m' \<Longrightarrow> remaining m' \<le> remaining m"
  by (auto simp: same_params_def remaining_def intro: diff_le_mono2)

lemma fuel_total:
  "m_invar ba m \<longrightarrow> remaining m < fuel \<longrightarrow> insert_fuel fuel ba m e \<noteq> None"
  "m_invar ba m \<longrightarrow> remaining m \<le> fuel \<longrightarrow> resize_fuel fuel ba m \<noteq> None"
  "m_invar ba m \<longrightarrow> remaining m < fuel \<longrightarrow> rehash_fuel fuel ba m es \<noteq> None"
proof (induction fuel ba m e and fuel ba m and fuel ba m es
    rule: insert_fuel_resize_fuel_rehash_fuel.induct)
  case (1 fuel ba m entry)
  show ?case
  proof (intro impI)
    assume inv: "m_invar ba m" and f: "remaining m < fuel"
    show "insert_fuel fuel ba m entry \<noteq> None"
    proof (cases "9 / 10 \<le> m_load_factor m")
      case False
      then show ?thesis by (simp add: insert_fuel.simps)
    next
      case True
      from f obtain f' where f': "fuel = Suc f'" by (cases fuel) auto
      with f have "remaining m \<le> f'" by simp
      with 1[OF True f'] inv have "resize_fuel f' ba m \<noteq> None" by blast
      with True f' show ?thesis
        by (auto simp: insert_fuel.simps split: option.splits sum.splits)
    qed
  qed
next
  case (2 fuel ba m)
  show ?case
  proof (intro impI)
    assume inv: "m_invar ba m" and f: "remaining m \<le> fuel"
    show "resize_fuel fuel ba m \<noteq> None"
    proof (cases "m_resizes_done m < length (m_primes m)")
      case False
      then show ?thesis by (simp add: resize_fuel.simps)
    next
      case True
      define m1 where "m1 = m\<lparr> m_capacity := m_primes m ! m_resizes_done m,
        m_load_factor := of_int (m_size m) / of_nat (m_primes m ! m_resizes_done m),
        m_resizes_done := m_resizes_done m + 1,
        m_buckets := replicate (m_primes m ! m_resizes_done m) None,
        m_size := 0 \<rparr>"
      note e = resized_empty[OF inv True m1_def]
      have "remaining m1 < fuel"
        using f True e(3,4) by (simp add: remaining_def same_params_def)
      with 2[OF True refl refl m1_def] e(1)
      have "rehash_fuel fuel ba m1 (all_entries (m_buckets m)) \<noteq> None" by blast
      with True show ?thesis by (simp add: resize_fuel.simps Let_def m1_def)
    qed
  qed
next
  case (3 fuel ba m)
  show ?case by simp
next
  case (4 fuel ba m entry entries)
  show ?case
  proof (intro impI)
    assume inv: "m_invar ba m" and f: "remaining m < fuel"
    with 4(1) obtain x where x: "insert_fuel fuel ba m entry = Some x" by blast
    show "rehash_fuel fuel ba m (entry # entries) \<noteq> None"
    proof (cases x)
      case (Inl err)
      with x show ?thesis by simp
    next
      case (Inr y)
      obtain m1 r1 where y: "y = (m1, r1)" by (cases y)
      from fuel_correct(1)[of ba m fuel entry] inv x Inr y
      have "m_invar ba m1" "same_params m m1" by (auto simp: insert_post_def)
      with same_params_remaining[of m m1] f have "m_invar ba m1" "remaining m1 < fuel" by simp_all
      with 4(2)[OF x Inr y[symmetric]] have "rehash_fuel fuel ba m1 entries \<noteq> None" by blast
      with x Inr y show ?thesis by simp
    qed
  qed
qed

lemma m_insert_total: "m_invar ba m \<Longrightarrow> m_insert ba m e \<noteq> None"
  using fuel_total(1)[of ba m "Suc (length (m_primes m) - m_resizes_done m)" e]
  by (simp add: m_insert_def remaining_def)

lemma m_run_total: "m_invar ba m \<Longrightarrow> m_run ba m ops \<noteq> None"
proof (induction ops arbitrary: m)
  case Nil
  then show ?case by simp
next
  case (Cons op ops)
  show ?case
  proof (cases op)
    case (Insert k v)
    from m_insert_total[OF Cons.prems, of "Entry k v"] obtain x
      where x: "m_insert ba m (Entry k v) = Some x" by blast
    show ?thesis
    proof (cases x)
      case (Inl err)
      with x Insert show ?thesis by simp
    next
      case (Inr y)
      obtain m1 r where y: "y = (m1, r)" by (cases y)
      from m_insert_correct(1)[OF Cons.prems, of "Entry k v" m1 r] x Inr y
      have "m_invar ba m1" by simp
      from Cons.IH[OF this] x Inr y Insert show ?thesis by simp
    qed
  next
    case (InsertKV k v)
    from m_insert_total[OF Cons.prems, of "Entry k v"] obtain x
      where x: "m_insert ba m (Entry k v) = Some x" by blast
    show ?thesis
    proof (cases x)
      case (Inl err)
      with x InsertKV show ?thesis by (simp add: insert_kv_def)
    next
      case (Inr y)
      obtain m1 r where y: "y = (m1, r)" by (cases y)
      from m_insert_correct(1)[OF Cons.prems, of "Entry k v" m1 r] x Inr y
      have "m_invar ba m1" by simp
      from Cons.IH[OF this] x Inr y InsertKV show ?thesis by (simp add: insert_kv_def)
    qed
  next
    case (SetItem k v)
    with Cons.IH[OF m_setitem_correct(1)[OF Cons.prems, of k v]] show ?thesis by simp
  next
    case (Remove k)
    with Cons.IH[OF m_remove_correct(1)[OF Cons.prems, of k]] show ?thesis by simp
  qed
qed

text \<open>Size and load factor: what each operation does to the two fields.\<close>

definition lf_ok :: "('k, 'v) hash_map \<Rightarrow> bool" where
  "lf_ok m \<longleftrightarrow> m_load_factor m = of_int (m_size m) / of_nat (m_capacity m)"

lemma m_lookup_None_iff:
  "m_lookup ba m k = None \<longleftrightarrow> k \<notin> get_key ` set (chain_of (m_buckets m ! m_hash ba m k))"
  by (simp add: m_lookup_def chain_lookup_None_iff)

lemma m_exists_lookup: "m_exists ba m k \<longleftrightarrow> m_lookup ba m k \<noteq> None"
  by (cases "m_buckets m ! m_hash ba m k")
     (simp_all add: m_exists_def m_lookup_None_iff chain_exists_iff)

lemma insert_here_size:
  assumes "insert_here ba m e = (m', r)"
  shows "m_lookup ba m (get_key e) = None \<Longrightarrow>
           m_size m' = m_size m + 1 \<and> m_load_factor m' = of_int (m_size m + 1) / of_nat (m_capacity m)"
    and "m_lookup ba m (get_key e) \<noteq> None \<Longrightarrow>
           m_size m' = m_size m \<and> m_load_factor m' = m_load_factor m"
proof -
  assume n: "m_lookup ba m (get_key e) = None"
  then have "\<not> m_exists ba m (get_key e)" by (simp add: m_exists_lookup)
  with assms show "m_size m' = m_size m + 1 \<and> m_load_factor m' = of_int (m_size m + 1) / of_nat (m_capacity m)"
    by (auto simp: insert_here_def Let_def split: option.splits)
next
  assume n: "m_lookup ba m (get_key e) \<noteq> None"
  then have ex: "m_exists ba m (get_key e)" by (simp add: m_exists_lookup)
  then have "m_buckets m ! m_hash ba m (get_key e) \<noteq> None"
    by (auto simp: m_exists_def split: option.splits)
  with assms ex show "m_size m' = m_size m \<and> m_load_factor m' = m_load_factor m"
    by (auto simp: insert_here_def Let_def split: option.splits prod.splits)
qed

lemma m_insert_no_resize:
  "m_load_factor m < 9 / 10 \<Longrightarrow> m_insert ba m e = Some (Inr (insert_here ba m e))"
  by (simp add: m_insert_def insert_fuel.simps)

lemma m_remove_size:
  "m_size (m_remove ba m k) = m_size m \<or> m_size (m_remove ba m k) = m_size m - 1"
  by (auto simp: m_remove_def Let_def split: option.splits)

lemma m_remove_resizes: "m_resizes_done (m_remove ba m k) = m_resizes_done m"
  by (auto simp: m_remove_def Let_def split: option.splits)

lemma m_remove_lf_ok: "lf_ok m \<Longrightarrow> lf_ok (m_remove ba m k)"
  by (auto simp: m_remove_def Let_def lf_ok_def split: option.splits)

lemma m_setitem_size:
  "m_lookup ba m k = None \<Longrightarrow> m_size (m_setitem ba m k v) = m_size m + 1"
  "m_lookup ba m k \<noteq> None \<Longrightarrow> m_size (m_setitem ba m k v) = m_size m"
  "lf_ok m \<Longrightarrow> lf_ok (m_setitem ba m k v)"
proof -
  show "m_lookup ba m k = None \<Longrightarrow> m_size (m_setitem ba m k v) = m_size m + 1"
    by (auto simp: m_exists_lookup m_setitem_def Let_def split: option.splits)
  show "m_lookup ba m k \<noteq> None \<Longrightarrow> m_size (m_setitem ba m k v) = m_size m"
    using m_exists_lookup[of ba m k]
    by (auto simp: m_setitem_def Let_def m_exists_def split: option.splits)
  show "lf_ok m \<Longrightarrow> lf_ok (m_setitem ba m k v)"
    by (auto simp: m_setitem_def Let_def lf_ok_def split: option.splits)
qed

text \<open>Below 502 entries the first capacity is never left.\<close>

definition small :: "('k \<Rightarrow> nat list) \<Rightarrow> ('k, 'v) hash_map \<Rightarrow> nat \<Rightarrow> bool" where
  "small ba m n \<longleftrightarrow>
     m_invar ba m \<and> lf_ok m \<and> m_capacity m = 557 \<and> m_resizes_done m = 0 \<and> m_size m \<le> int n"

lemma small_lf: "small ba m n \<Longrightarrow> n \<le> 501 \<Longrightarrow> m_load_factor m < 9 / 10"
proof -
  assume s: "small ba m n" and n: "n \<le> 501"
  then have "m_size m \<le> 501" by (simp add: small_def)
  then have "(of_int (m_size m) :: rat) \<le> 501" by (metis of_int_le_iff of_int_numeral)
  with s show ?thesis by (simp add: small_def lf_ok_def)
qed

lemma small_step:
  assumes s: "small ba m n" and n: "n \<le> 501"
  obtains m1 where "m_run ba m (op # ops) = m_run ba m1 ops" "small ba m1 (Suc n)"
proof (cases op)
  case (Insert k v)
  obtain m1 r where ih: "insert_here ba m (Entry k v) = (m1, r)" by (cases "insert_here ba m (Entry k v)")
  from s have inv: "m_invar ba m" by (simp add: small_def)
  have run: "m_run ba m (op # ops) = m_run ba m1 ops"
    using m_insert_no_resize[OF small_lf[OF s n], of ba "Entry k v"] ih Insert by simp
  from insert_here_correct(1,4,5)[OF inv ih] insert_here_size[OF ih] s
  have "small ba m1 (Suc n)"
    by (cases "m_lookup ba m k = None") (auto simp: small_def lf_ok_def)
  with run that show ?thesis by blast
next
  case (InsertKV k v)
  obtain m1 r where ih: "insert_here ba m (Entry k v) = (m1, r)" by (cases "insert_here ba m (Entry k v)")
  from s have inv: "m_invar ba m" by (simp add: small_def)
  have run: "m_run ba m (op # ops) = m_run ba m1 ops"
    using m_insert_no_resize[OF small_lf[OF s n], of ba "Entry k v"] ih InsertKV
    by (simp add: insert_kv_def)
  from insert_here_correct(1,4,5)[OF inv ih] insert_here_size[OF ih] s
  have "small ba m1 (Suc n)"
    by (cases "m_lookup ba m k = None") (auto simp: small_def lf_ok_def)
  with run that show ?thesis by blast
next
  case (SetItem k v)
  from s have inv: "m_invar ba m" by (simp add: small_def)
  from m_setitem_correct(1,4,5)[OF inv, of k v] m_setitem_size[where ba=ba and m=m and k=k and v=v] s
  have "small ba (m_setitem ba m k v) (Suc n)"
    by (cases "m_lookup ba m k = None") (auto simp: small_def)
  with SetItem that show ?thesis by simp
next
  case (Remove k)
  from s have inv: "m_invar ba m" by (simp add: small_def)
  from m_remove_correct(1,3,4)[OF inv, of k] m_remove_size[where ba=ba and m=m and k=k] m_remove_lf_ok s
    m_remove_resizes[where ba=ba and m=m and k=k]
  have "small ba (m_remove ba m k) (Suc n)"
    by (auto simp: small_def same_params_def)
  with Remove that show ?thesis by simp
qed

lemma small_run:
  "small ba m n \<Longrightarrow> n + length ops \<le> 502 \<Longrightarrow>
     \<exists>m'. m_run ba m ops = Some (Inr m') \<and> small ba m' (n + length ops)"
proof (induction ops arbitrary: m n)
  case Nil
  then show ?case by simp
next
  case (Cons op ops)
  then have n: "n \<le> 501" by simp
  from small_step[OF Cons.prems(1) n, of op ops] obtain m1
    where m1: "m_run ba m (op # ops) = m_run ba m1 ops" "small ba m1 (Suc n)" by blast
  from Cons.IH[OF m1(2)] Cons.prems(2) m1(1) show ?case by simp
qed

lemma Map_init_small: "small ba (Map_init a b) 0"
  by (simp add: small_def Map_init_invar) (simp add: Map_init_def lf_ok_def)


lemma m_insert_resizes:
  assumes "m_invar ba m" "9 / 10 \<le> m_load_factor m" "m_insert ba m e = Some (Inr (m', r))"
  shows "m_resizes_done m < m_resizes_done m'"
proof -
  from assms(2,3) obtain m1 where rs: "resize_fuel (length (m_primes m) - m_resizes_done m) ba m = Some (Inr m1)"
    and ih: "insert_here ba m1 e = (m', r)"
    by (auto simp: m_insert_def insert_fuel.simps split: option.splits sum.splits)
  from fuel_correct(2)[of ba m _] assms(1) rs have "m_resizes_done m < m_resizes_done m1" by blast
  with insert_here_same_params[OF ih] show ?thesis by (simp add: same_params_def)
qed

lemma distinct_inserts:
  "small ba m n \<Longrightarrow> m_size m = int n \<Longrightarrow> distinct ks \<Longrightarrow> \<forall>k\<in>set ks. m_lookup ba m k = None
    \<Longrightarrow> n + length ks \<le> 502
    \<Longrightarrow> \<exists>m'. m_run ba m (map (\<lambda>k. InsertKV k (val k)) ks) = Some (Inr m')
          \<and> small ba m' (n + length ks) \<and> m_size m' = int (n + length ks)"
proof (induction ks arbitrary: m n)
  case Nil
  then show ?case by simp
next
  case (Cons k ks)
  then have n: "n \<le> 501" by simp
  obtain m1 r where ih: "insert_here ba m (Entry k (val k)) = (m1, r)"
    by (cases "insert_here ba m (Entry k (val k))")
  from Cons.prems(1) have inv: "m_invar ba m" by (simp add: small_def)
  from Cons.prems(4) have new: "m_lookup ba m k = None" by simp
  have run: "m_run ba m (map (\<lambda>k. InsertKV k (val k)) (k # ks))
      = m_run ba m1 (map (\<lambda>k. InsertKV k (val k)) ks)"
    using m_insert_no_resize[OF small_lf[OF Cons.prems(1) n], of ba "Entry k (val k)"] ih
    by (simp add: insert_kv_def)
  from insert_here_size(1)[OF ih] new
  have sz: "m_size m1 = m_size m + 1" "m_load_factor m1 = of_int (m_size m + 1) / of_nat (m_capacity m)"
    by simp_all
  from insert_here_correct(1,4,5)[OF inv ih] sz Cons.prems(1,2)
  have s1: "small ba m1 (Suc n)" "m_size m1 = int (Suc n)"
    by (auto simp: small_def lf_ok_def)
  have "\<forall>k'\<in>set ks. m_lookup ba m1 k' = None"
    using insert_here_correct(2)[OF inv ih] Cons.prems(3,4) by auto
  from Cons.IH[OF s1 _ this] Cons.prems(3,5) run show ?case by simp
qed

text \<open>
  Claim C1. Run any sequence of \<open>insert\<close>, \<open>insert_kv\<close>, \<open>__setitem__\<close> and \<open>remove\<close> calls on
  a fresh map. The run always has an outcome, and an error can only be the exhausted
  schedule of capacities (sequences of at most 502 operations never meet it). When the run
  completes, \<open>find\<close> agrees with the finite map that the sequence describes: after
  \<open>insert(k, v)\<close> with no later operation on \<open>k\<close> it returns \<open>v\<close>, and right after
  \<open>remove(k)\<close> it returns the "no value" result.
\<close>

theorem map_find_after_operations:
  "(m_run ba (Map_init a b) ops = Some (Inr m) \<longrightarrow> m_find ba m k = spec_run ops Map.empty k)
   \<and> (m_run ba (Map_init a b) (ops1 @ ins # ops2) = Some (Inr m)
        \<and> (ins = Insert k v \<or> ins = InsertKV k v) \<and> (\<forall>op\<in>set ops2. op_key op \<noteq> k)
      \<longrightarrow> m_find ba m k = Some v)
   \<and> (m_run ba (Map_init a b) (ops @ [Remove k]) = Some (Inr m) \<longrightarrow> m_find ba m k = None)
   \<and> m_run ba (Map_init a b) ops \<noteq> None
   \<and> (length ops \<le> 502 \<longrightarrow> (\<exists>m'. m_run ba (Map_init a b) ops = Some (Inr m')))"
proof (intro conjI impI)
  assume "m_run ba (Map_init a b) ops = Some (Inr m)"
  from m_run_refines[OF Map_init_invar this]
  show "m_find ba m k = spec_run ops Map.empty k"
    by (simp add: m_find_lookup Map_init_lookup)
next
  assume h: "m_run ba (Map_init a b) (ops1 @ ins # ops2) = Some (Inr m)
        \<and> (ins = Insert k v \<or> ins = InsertKV k v) \<and> (\<forall>op\<in>set ops2. op_key op \<noteq> k)"
  then have r: "m_run ba (Map_init a b) (ops1 @ ins # ops2) = Some (Inr m)" by simp
  from h have "spec_step ins (spec_run ops1 Map.empty) k = Some v" by auto
  moreover from h have "spec_run ops2 (spec_step ins (spec_run ops1 Map.empty)) k
      = spec_step ins (spec_run ops1 Map.empty) k"
    by (intro spec_run_untouched) simp
  ultimately have "spec_run (ops1 @ ins # ops2) Map.empty k = Some v"
    by (simp add: spec_run_append spec_run_Cons)
  with m_run_refines[OF Map_init_invar r]
  show "m_find ba m k = Some v"
    by (simp add: m_find_lookup Map_init_lookup)
next
  assume r: "m_run ba (Map_init a b) (ops @ [Remove k]) = Some (Inr m)"
  have "spec_run (ops @ [Remove k]) Map.empty k = None"
    by (simp add: spec_run_append spec_run_Cons spec_run_Nil)
  with m_run_refines[OF Map_init_invar r]
  show "m_find ba m k = None"
    by (simp add: m_find_lookup Map_init_lookup)
next
  show "m_run ba (Map_init a b) ops \<noteq> None"
    by (rule m_run_total[OF Map_init_invar])
next
  assume "length ops \<le> 502"
  with small_run[OF Map_init_small, of ops ba a b]
  show "\<exists>m'. m_run ba (Map_init a b) ops = Some (Inr m')" by auto
qed

theorem map_find_after_operations_witness:
  "\<exists>m. m_run (\<lambda>k. [k]) (Map_init 1000 1001) [Insert (1::nat) (10::nat), InsertKV 2 20, Remove 1] = Some (Inr m)
     \<and> length [Insert (1::nat) (10::nat), InsertKV 2 20, Remove 1] \<le> 502
     \<and> (\<forall>op\<in>set [Remove (1::nat) :: (nat, nat) map_op]. op_key op \<noteq> 2)
     \<and> m_find (\<lambda>k. [k]) m 2 = Some 20
     \<and> m_find (\<lambda>k. [k]) m 1 = None"
proof -
  let ?ba = "\<lambda>k::nat. [k]"
  let ?ops = "[Insert (1::nat) (10::nat), InsertKV 2 20, Remove 1]"
  have len: "length ?ops \<le> 502" by simp
  with map_find_after_operations[of ?ba 1000 1001 ?ops]
  obtain m where m: "m_run ?ba (Map_init 1000 1001) ?ops = Some (Inr m)" by blast
  have u: "\<forall>op\<in>set [Remove (1::nat) :: (nat, nat) map_op]. op_key op \<noteq> 2" by simp
  from map_find_after_operations[of ?ba 1000 1001 _ m 2 "[Insert 1 10]" "InsertKV 2 20" "[Remove 1]" 20] m u
  have f2: "m_find ?ba m 2 = Some 20" by simp
  from map_find_after_operations[of ?ba 1000 1001 "[Insert 1 10, InsertKV 2 20]" m 1] m
  have f1: "m_find ?ba m 1 = None" by simp
  from m len u f2 f1 show ?thesis by blast
qed

text \<open>
  Claim C2 fails on the code: \<open>remove\<close> decrements the size and recomputes the load factor
  whenever the bucket of the key exists, whether or not the key is in it. After
  \<open>insert_kv(k, v)\<close> and \<open>remove(k)\<close> the key is absent and the size is 0; a second
  \<open>remove(k)\<close> changes the reported size to \<open>-1\<close> and the load factor to \<open>-1/557\<close>.
\<close>

theorem remove_absent_key_changes_size:
  "\<exists>m. m_run ba (Map_init a b) [InsertKV k v, Remove k] = Some (Inr m)
     \<and> m_find ba m k = None \<and> m_get_size m = 0
     \<and> m_get_size (m_remove ba m k) = - 1
     \<and> get_load_factor (m_remove ba m k) = - 1 / 557
     \<and> m_remove ba m k \<noteq> m"
proof -
  define m0 :: "('a, 'b) hash_map" where "m0 = Map_init a b"
  define h where "h = m_hash ba m0 k"
  define m1 where "m1 = m0\<lparr> m_buckets := (m_buckets m0)[h := Some [Entry k v]], m_size := 1,
      m_load_factor := 1 / 557 \<rparr>"
  define m2 where "m2 = m1\<lparr> m_buckets := (m_buckets m0)[h := Some []], m_size := 0,
      m_load_factor := 0 \<rparr>"
  define m3 where "m3 = m2\<lparr> m_size := - 1, m_load_factor := - 1 / 557 \<rparr>"
  have hl: "h < 557" using m_hash_less[of m0 ba k] by (simp add: h_def m0_def Map_init_def)
  have b0: "m_buckets m0 = replicate 557 None" "m_capacity m0 = 557" "m_size m0 = 0"
    "m_load_factor m0 = 0"
    by (simp_all add: m0_def Map_init_def)
  have h1: "m_hash ba m1 k = h" "m_hash ba m2 k = h"
    by (simp_all add: m1_def m2_def h_def m_hash_def)
  have i: "insert_here ba m0 (Entry k v) = (m1, None)"
    using hl by (simp add: insert_here_def h_def[symmetric] b0 Let_def insert_to_front_def m1_def)
  have "m_insert ba m0 (Entry k v) = Some (Inr (m1, None))"
    using m_insert_no_resize[of m0 ba "Entry k v"] i by (simp add: b0)
  moreover have r1: "m_remove ba m1 k = m2"
    using hl by (simp add: m_remove_def h1 Let_def) (simp add: m1_def m2_def b0)
  ultimately have run: "m_run ba (Map_init a b) [InsertKV k v, Remove k] = Some (Inr m2)"
    by (simp add: insert_kv_def m0_def)
  have r2: "m_remove ba m2 k = m3"
    using hl by (simp add: m_remove_def h1 Let_def) (simp add: m2_def m3_def m1_def b0)
  have f: "m_find ba m2 k = None"
    using hl by (simp add: m_find_lookup m_lookup_def h1) (simp add: m2_def m1_def b0)
  have "m_size m3 \<noteq> m_size m2" by (simp add: m3_def m2_def)
  then have ne: "m3 \<noteq> m2" by auto
  have "m_get_size m2 = 0" "m_get_size m3 = - 1" "get_load_factor m3 = - 1 / 557"
    by (simp_all add: m_get_size_def get_load_factor_def m2_def m3_def)
  with run f r2 ne show ?thesis by auto
qed

text \<open>
  Claim C3 fails on the code for the assignment form: \<open>__setitem__\<close> never looks at the load
  factor. After 502 insertions of different keys into a fresh map the load factor is
  \<open>502/557\<close>, above 0.9; assigning a further new key leaves the capacity at 557 with no
  resize performed and raises the load factor to \<open>503/557\<close>. (\<open>insert\<close> in the same state
  resizes first: lemma \<open>m_insert_resizes\<close>.)
\<close>

theorem setitem_skips_resize:
  "\<exists>m. m_run ba (Map_init a b) (map (\<lambda>k. InsertKV k v) [0..<502]) = Some (Inr m)
     \<and> get_load_factor m = 502 / 557 \<and> 9 / 10 \<le> get_load_factor m
     \<and> m_capacity (m_setitem ba m 502 v) = 557
     \<and> m_resizes_done (m_setitem ba m 502 v) = 0
     \<and> get_load_factor (m_setitem ba m 502 v) = 503 / 557"
proof -
  let ?ops = "map (\<lambda>k::nat. InsertKV k v) [0..<502]"
  have "\<forall>k\<in>set [0..<502]. m_lookup ba (Map_init a b :: (nat, 'a) hash_map) k = None"
    by (simp add: Map_init_lookup)
  from distinct_inserts[OF Map_init_small _ _ this, of "\<lambda>k. v"]
  obtain m where m: "m_run ba (Map_init a b) ?ops = Some (Inr m)"
    and s: "small ba m 502" and sz: "m_size m = 502"
    by (auto simp: Map_init_def)
  from s have inv: "m_invar ba m" and lf: "lf_ok m" and cap: "m_capacity m = 557"
    and rd: "m_resizes_done m = 0"
    by (simp_all add: small_def)
  from lf sz cap have l: "get_load_factor m = 502 / 557"
    by (simp add: lf_ok_def get_load_factor_def)
  have "\<forall>op\<in>set ?ops. op_key op \<noteq> 502" by auto
  from spec_run_untouched[OF this, of Map.empty] m_run_refines[OF Map_init_invar m]
  have new: "m_lookup ba m 502 = None" by (simp add: Map_init_lookup)
  from m_setitem_size(1)[OF new, of v] m_setitem_size(3)[OF lf, of ba 502 v]
    m_setitem_correct(4,5)[OF inv, of 502 v] sz cap rd
  have "m_capacity (m_setitem ba m 502 v) = 557" "m_resizes_done (m_setitem ba m 502 v) = 0"
    "get_load_factor (m_setitem ba m 502 v) = 503 / 557"
    by (simp_all add: lf_ok_def get_load_factor_def)
  with m l show ?thesis by auto
qed


section \<open>Reasoning about results\<close>

definition res_sat :: "(error \<Rightarrow> bool) \<Rightarrow> ('a \<Rightarrow> bool) \<Rightarrow> 'a result \<Rightarrow> bool" where
  "res_sat E P r = (case r of None \<Rightarrow> False | Some (Inl e) \<Rightarrow> E e | Some (Inr x) \<Rightarrow> P x)"

lemma res_sat_ok [simp]: "res_sat E P (ok x) \<longleftrightarrow> P x"
  by (simp add: res_sat_def ok_def)

lemma res_sat_raise [simp]: "res_sat E P (raise e) \<longleftrightarrow> E e"
  by (simp add: res_sat_def raise_def)

lemma res_sat_bind:
  assumes "res_sat E P x" and "\<And>a. P a \<Longrightarrow> res_sat E Q (f a)"
  shows "res_sat E Q (bind_res x f)"
proof (cases x)
  case None
  with assms(1) show ?thesis by (simp add: res_sat_def)
next
  case (Some y)
  show ?thesis
  proof (cases y)
    case (Inl e)
    with Some assms(1) show ?thesis by (simp add: res_sat_def bind_res_def)
  next
    case (Inr a)
    with Some assms(1) have "P a" by (simp add: res_sat_def)
    from assms(2)[OF this] Some Inr show ?thesis by (simp add: bind_res_def)
  qed
qed

lemma res_sat_mono:
  "res_sat E P r \<Longrightarrow> (\<And>e. E e \<Longrightarrow> E' e) \<Longrightarrow> (\<And>x. P x \<Longrightarrow> P' x) \<Longrightarrow> res_sat E' P' r"
  by (auto simp: res_sat_def split: option.splits sum.splits)

lemma res_sat_conj:
  "res_sat E P r \<Longrightarrow> res_sat E' P' r \<Longrightarrow> res_sat (\<lambda>e. E e \<and> E' e) (\<lambda>x. P x \<and> P' x) r"
  by (auto simp: res_sat_def split: option.splits sum.splits)

lemma res_sat_Inr: "res_sat E P r \<Longrightarrow> r = Some (Inr x) \<Longrightarrow> P x"
  by (simp add: res_sat_def)

lemma res_sat_no_error: "res_sat (\<lambda>e. False) P r \<Longrightarrow> \<exists>x. r = Some (Inr x) \<and> P x"
  by (auto simp: res_sat_def split: option.splits sum.splits)

lemma res_sat_cases:
  "res_sat E P r \<Longrightarrow> (\<exists>x. r = Some (Inr x) \<and> P x) \<or> (\<exists>e. r = Some (Inl e) \<and> E e)"
  by (auto simp: res_sat_def split: option.splits sum.splits)

lemma for_loop_sat:
  assumes "I s" and "\<And>i s. i \<in> set idxs \<Longrightarrow> I s \<Longrightarrow> res_sat E I (body i s)"
  shows "res_sat E I (for_loop idxs body s)"
  using assms
proof (induction idxs arbitrary: s)
  case Nil
  then show ?case by simp
next
  case (Cons i idxs)
  show ?case
    unfolding for_loop.simps
  proof (rule res_sat_bind)
    show "res_sat E I (body i s)" using Cons.prems by simp
    show "res_sat E I (for_loop idxs body s')" if "I s'" for s'
      using that Cons.prems(2) by (intro Cons.IH) simp_all
  qed
qed

lemma for_loop_upt_sat:
  assumes "I a s" and "a \<le> b"
    and "\<And>i s. a \<le> i \<Longrightarrow> i < b \<Longrightarrow> I i s \<Longrightarrow> res_sat E (I (Suc i)) (body i s)"
  shows "res_sat E (I b) (for_loop [a..<b] body s)"
  using assms
proof (induction "b - a" arbitrary: a s)
  case 0
  then show ?case by simp
next
  case (Suc d)
  then have lt: "a < b" by simp
  then have u: "[a..<b] = a # [Suc a..<b]" by (rule upt_conv_Cons)
  show ?case
    unfolding u for_loop.simps
  proof (rule res_sat_bind)
    show "res_sat E (I (Suc a)) (body a s)" using Suc.prems lt by simp
    show "res_sat E (I b) (for_loop [Suc a..<b] body s')" if "I (Suc a) s'" for s'
    proof (rule Suc.hyps(1))
      show "d = b - Suc a" using Suc.hyps(2) by simp
      show "I (Suc a) s'" by (rule that)
      show "Suc a \<le> b" using lt by simp
      show "res_sat E (I (Suc i)) (body i s)" if "Suc a \<le> i" "i < b" "I i s" for i s
        using that Suc.prems(3)[of i s] by simp
    qed
  qed
qed


section \<open>The map as seen by its clients\<close>

lemma fuel_errors:
  "insert_fuel fuel ba m e = Some (Inl err) \<longrightarrow> err = ScheduleExhausted"
  "resize_fuel fuel ba m = Some (Inl err) \<longrightarrow> err = ScheduleExhausted"
  "rehash_fuel fuel ba m es = Some (Inl err) \<longrightarrow> err = ScheduleExhausted"
proof (induction fuel ba m e and fuel ba m and fuel ba m es
    rule: insert_fuel_resize_fuel_rehash_fuel.induct)
  case (1 fuel ba m entry)
  show ?case
  proof
    assume r: "insert_fuel fuel ba m entry = Some (Inl err)"
    then have lf: "9 / 10 \<le> m_load_factor m"
      by (auto simp: insert_fuel.simps split: if_splits)
    with r obtain f' where f: "fuel = Suc f'" and "resize_fuel f' ba m = Some (Inl err)"
      by (auto simp: insert_fuel.simps split: nat.splits option.splits sum.splits)
    with 1[OF lf f] show "err = ScheduleExhausted" by simp
  qed
next
  case (2 fuel ba m)
  show ?case
  proof
    assume r: "resize_fuel fuel ba m = Some (Inl err)"
    show "err = ScheduleExhausted"
    proof (cases "m_resizes_done m < length (m_primes m)")
      case False
      with r show ?thesis by (simp add: resize_fuel.simps)
    next
      case True
      with r 2[OF True refl refl refl] show ?thesis
        by (simp add: resize_fuel.simps Let_def)
    qed
  qed
next
  case (3 fuel ba m)
  show ?case by simp
next
  case (4 fuel ba m entry entries)
  show ?case
  proof
    assume r: "rehash_fuel fuel ba m (entry # entries) = Some (Inl err)"
    then consider "insert_fuel fuel ba m entry = Some (Inl err)"
      | m1 r1 where "insert_fuel fuel ba m entry = Some (Inr (m1, r1))"
          "rehash_fuel fuel ba m1 entries = Some (Inl err)"
      by (auto split: option.splits sum.splits prod.splits)
    then show "err = ScheduleExhausted"
    proof cases
      case 1
      with 4(1) show ?thesis by simp
    next
      case 2
      with 4(2)[OF 2(1) refl refl] show ?thesis by simp
    qed
  qed
qed

lemma insert_kv_sat:
  assumes "m_invar ba m"
  shows "res_sat (\<lambda>e. e = ScheduleExhausted)
           (\<lambda>(m', old). m_invar ba m' \<and> m_lookup ba m' = (m_lookup ba m)(k \<mapsto> v))
           (insert_kv ba m k v)"
proof -
  from m_insert_total[OF assms, of "Entry k v"] obtain x
    where x: "m_insert ba m (Entry k v) = Some x" by blast
  show ?thesis
  proof (cases x)
    case (Inl err)
    with x fuel_errors(1)[of _ ba m "Entry k v" err] show ?thesis
      by (simp add: insert_kv_def res_sat_def m_insert_def)
  next
    case (Inr y)
    obtain m' old where y: "y = (m', old)" by (cases y)
    from m_insert_correct(1,2)[OF assms, of "Entry k v" m' old] x Inr y show ?thesis
      by (simp add: insert_kv_def res_sat_def)
  qed
qed

definition exact :: "('k \<Rightarrow> nat list) \<Rightarrow> ('k, 'v) hash_map \<Rightarrow> bool" where
  "exact ba m \<longleftrightarrow>
     m_invar ba m \<and> lf_ok m \<and> m_capacity m = 557 \<and> m_resizes_done m = 0 \<and>
     m_size m = int (card (dom (m_lookup ba m)))"

lemma Map_init_exact: "exact ba (Map_init a b)"
  using Map_init_small[of ba a b]
  by (simp add: exact_def small_def Map_init_lookup) (simp add: Map_init_def)

lemma insert_kv_exact:
  assumes ex: "exact ba m" and sub: "dom (m_lookup ba m) \<subseteq> K" and fin: "finite K"
    and card: "card K \<le> 501" and k: "k \<in> K"
  shows "\<exists>m' old. insert_kv ba m k v = Some (Inr (m', old)) \<and> exact ba m'
           \<and> dom (m_lookup ba m') \<subseteq> K"
proof -
  from ex have inv: "m_invar ba m" by (simp add: exact_def)
  have fd: "finite (dom (m_lookup ba m))" using sub fin by (rule finite_subset)
  have "card (dom (m_lookup ba m)) \<le> 501"
    using card_mono[OF fin sub] card by simp
  with ex have "small ba m 501" by (simp add: exact_def small_def)
  from small_lf[OF this] have lf: "m_load_factor m < 9 / 10" by simp
  obtain m' old where ih: "insert_here ba m (Entry k v) = (m', old)"
    by (cases "insert_here ba m (Entry k v)")
  from m_insert_no_resize[OF lf, of ba "Entry k v"] ih
  have run: "insert_kv ba m k v = Some (Inr (m', old))" by (simp add: insert_kv_def)
  note c = insert_here_correct[OF inv ih]
  have lk: "m_lookup ba m' = (m_lookup ba m)(k \<mapsto> v)" using c(2) by simp
  have d: "dom (m_lookup ba m') = insert k (dom (m_lookup ba m))" by (simp add: lk)
  have "exact ba m'"
  proof (cases "m_lookup ba m k = None")
    case True
    then have "k \<notin> dom (m_lookup ba m)" by auto
    with fd have "card (dom (m_lookup ba m')) = Suc (card (dom (m_lookup ba m)))"
      by (simp add: d)
    with insert_here_size(1)[OF ih] True c(1,4,5) ex show ?thesis
      by (simp add: exact_def lf_ok_def)
  next
    case False
    then have "k \<in> dom (m_lookup ba m)" by auto
    then have "dom (m_lookup ba m') = dom (m_lookup ba m)" by (auto simp: d)
    with insert_here_size(2)[OF ih] False c(1,4,5) ex show ?thesis
      by (simp add: exact_def lf_ok_def)
  qed
  with run d sub k show ?thesis by auto
qed


section \<open>chain\_reaction: the adjacency arrays\<close>

definition adj_view :: "(int \<Rightarrow> nat list) \<Rightarrow> adjacency \<Rightarrow> store \<Rightarrow> int \<Rightarrow> int list option" where
  "adj_view ba adj st k = map_option (\<lambda>addr. st ! addr) (m_lookup ba adj k)"

definition adj_wf :: "(int \<Rightarrow> nat list) \<Rightarrow> adjacency \<Rightarrow> store \<Rightarrow> bool" where
  "adj_wf ba adj st \<longleftrightarrow>
     m_invar ba adj \<and>
     (\<forall>k addr. m_lookup ba adj k = Some addr \<longrightarrow> addr < length st) \<and>
     (\<forall>k k' addr. m_lookup ba adj k = Some addr \<and> m_lookup ba adj k' = Some addr \<longrightarrow> k = k')"

lemma adj_wf_init: "adj_wf ba (Map_init a b) []"
  by (simp add: adj_wf_def Map_init_invar Map_init_lookup)

lemma adj_view_init: "adj_view ba (Map_init a b) [] k = None"
  by (simp add: adj_view_def Map_init_lookup)

lemma insert_new_array_sat:
  assumes wf: "adj_wf ba adj st"
  shows "res_sat (\<lambda>e. e = ScheduleExhausted)
           (\<lambda>(adj', st'). adj_wf ba adj' st' \<and>
              (\<forall>k. adj_view ba adj' st' k = (if k = cid then Some [] else adj_view ba adj st k)))
           (insert_new_array ba cid (adj, st))"
proof -
  from wf have inv: "m_invar ba adj" by (simp add: adj_wf_def)
  have "res_sat (\<lambda>e. e = ScheduleExhausted)
           (\<lambda>(adj', st'). adj_wf ba adj' st' \<and>
              (\<forall>k. adj_view ba adj' st' k = (if k = cid then Some [] else adj_view ba adj st k)))
           (bind_res (insert_kv ba adj cid (length st)) (\<lambda>(adj', old). ok (adj', st @ [[]])))"
  proof (rule res_sat_bind[OF insert_kv_sat[OF inv]])
    fix x :: "adjacency \<times> nat option"
    obtain adj' old where x: "x = (adj', old)" by (cases x)
    assume "case x of (m', old) \<Rightarrow> m_invar ba m' \<and> m_lookup ba m' = (m_lookup ba adj)(cid \<mapsto> length st)"
    with x have inv': "m_invar ba adj'"
      and lk: "\<And>k. m_lookup ba adj' k = (if k = cid then Some (length st) else m_lookup ba adj k)"
      by simp_all
    have old_lt: "addr < length st" if "m_lookup ba adj k = Some addr" for k addr
      using wf that by (auto simp: adj_wf_def)
    have inj: "k = k'" if "m_lookup ba adj k = Some addr" "m_lookup ba adj k' = Some addr" for k k' addr
      using wf that unfolding adj_wf_def by blast
    have w: "adj_wf ba adj' (st @ [[]])"
      unfolding adj_wf_def
    proof (intro conjI allI impI)
      show "m_invar ba adj'" by (rule inv')
    next
      fix k addr assume "m_lookup ba adj' k = Some addr"
      with old_lt[of k addr] show "addr < length (st @ [[]])"
        by (auto simp: lk split: if_splits)
    next
      fix k k' addr
      assume "m_lookup ba adj' k = Some addr \<and> m_lookup ba adj' k' = Some addr"
      with old_lt[of k addr] old_lt[of k' addr] inj[of k addr k'] show "k = k'"
        by (auto simp: lk split: if_splits)
    qed
    have v: "adj_view ba adj' (st @ [[]]) k = (if k = cid then Some [] else adj_view ba adj st k)" for k
    proof (cases "k = cid")
      case True
      then show ?thesis by (simp add: adj_view_def lk)
    next
      case False
      show ?thesis
      proof (cases "m_lookup ba adj k")
        case None
        with False show ?thesis by (simp add: adj_view_def lk)
      next
        case (Some addr)
        with old_lt[of k addr] False show ?thesis by (simp add: adj_view_def lk nth_append)
      qed
    qed
    from w v show "res_sat (\<lambda>e. e = ScheduleExhausted)
           (\<lambda>(adj', st'). adj_wf ba adj' st' \<and>
              (\<forall>k. adj_view ba adj' st' k = (if k = cid then Some [] else adj_view ba adj st k)))
           (case x of (adj', old) \<Rightarrow> ok (adj', st @ [[]]))"
      by (simp add: x)
  qed
  then show ?thesis by (simp add: insert_new_array_def new_array_def)
qed

lemma append_at_sat:
  assumes wf: "adj_wf ba adj st" and lk: "m_lookup ba adj cid = Some addr"
  shows "adj_wf ba adj (append_at st addr x)"
    and "adj_view ba adj (append_at st addr x) k
           = (if k = cid then Some (st ! addr @ [x]) else adj_view ba adj st k)"
proof -
  show "adj_wf ba adj (append_at st addr x)"
    using wf by (simp add: adj_wf_def append_at_def)
  from wf lk have a: "addr < length st" by (auto simp: adj_wf_def)
  show "adj_view ba adj (append_at st addr x) k
           = (if k = cid then Some (st ! addr @ [x]) else adj_view ba adj st k)"
  proof (cases "k = cid")
    case True
    with lk a show ?thesis by (simp add: adj_view_def append_at_def)
  next
    case False
    show ?thesis
    proof (cases "m_lookup ba adj k")
      case None
      with False show ?thesis by (simp add: adj_view_def)
    next
      case (Some addr')
      with wf lk False have "addr' \<noteq> addr" unfolding adj_wf_def by blast
      with Some False show ?thesis by (simp add: adj_view_def append_at_def)
    qed
  qed
qed

lemma find_append_sat:
  assumes wf: "adj_wf ba adj st" and v: "adj_view ba adj st cid = Some xs"
  shows "res_sat (\<lambda>e. False)
           (\<lambda>(adj', st'). adj' = adj \<and> adj_wf ba adj' st' \<and>
              (\<forall>k. adj_view ba adj' st' k = (if k = cid then Some (xs @ [x]) else adj_view ba adj st k)))
           (find_append ba cid x (adj, st))"
proof -
  from v obtain addr where lk: "m_lookup ba adj cid = Some addr" and xs: "xs = st ! addr"
    by (auto simp: adj_view_def)
  from append_at_sat[OF wf lk, of x] lk xs show ?thesis
    by (simp add: find_append_def m_find_lookup)
qed


section \<open>chain\_reaction: the construction of the adjacency map\<close>

definition cid_at :: "compound list \<Rightarrow> nat \<Rightarrow> int" where
  "cid_at cs i = get_compound_id (cs ! i)"

definition in_range :: "(int \<Rightarrow> real) \<Rightarrow> compound \<Rightarrow> compound \<Rightarrow> bool" where
  "in_range rt c0 c1 \<longleftrightarrow> distance rt c0 c1 \<le> get_radius c0"

definition trig :: "(int \<Rightarrow> real) \<Rightarrow> compound list \<Rightarrow> (int \<times> int) set" where
  "trig rt cs = {(cid_at cs i, cid_at cs j) | i j.
                i < length cs \<and> j < length cs \<and> i \<noteq> j \<and> in_range rt (cs ! i) (cs ! j)}"

definition ids :: "compound list \<Rightarrow> int set" where
  "ids cs = c_cid ` set cs"

definition sound :: "(int \<Rightarrow> real) \<Rightarrow> compound list \<Rightarrow> (int \<Rightarrow> int list option) \<Rightarrow> bool" where
  "sound rt cs v \<longleftrightarrow> (\<forall>a xs. v a = Some xs \<longrightarrow> set xs \<subseteq> trig rt cs `` {a})"

definition partial_row ::
  "(int \<Rightarrow> real) \<Rightarrow> compound list \<Rightarrow> (int \<Rightarrow> int list option) \<Rightarrow> nat \<Rightarrow> nat \<Rightarrow> bool" where
  "partial_row rt cs v i j \<longleftrightarrow>
     (\<exists>xs. v (cid_at cs i) = Some xs \<and>
           (\<forall>j'<j. j' \<noteq> i \<and> in_range rt (cs ! i) (cs ! j') \<longrightarrow> cid_at cs j' \<in> set xs))"

definition view_le :: "(int \<Rightarrow> int list option) \<Rightarrow> (int \<Rightarrow> int list option) \<Rightarrow> bool" where
  "view_le v v' \<longleftrightarrow> (\<forall>a xs. v a = Some xs \<longrightarrow> (\<exists>xs'. v' a = Some xs' \<and> set xs \<subseteq> set xs'))"

lemma view_le_refl [simp]: "view_le v v"
  by (simp add: view_le_def)

lemma view_le_trans: "view_le v1 v2 \<Longrightarrow> view_le v2 v3 \<Longrightarrow> view_le v1 v3"
  unfolding view_le_def by (meson subset_trans)

lemma partial_row_mono: "partial_row rt cs v i j \<Longrightarrow> view_le v v' \<Longrightarrow> partial_row rt cs v' i j"
  unfolding partial_row_def view_le_def by (meson subsetD)

lemma view_le_present: "view_le v v' \<Longrightarrow> v a \<noteq> None \<Longrightarrow> v' a \<noteq> None"
  unfolding view_le_def by fastforce

lemma distance_commute: "distance rt c0 c1 = distance rt c1 c0"
  by (simp add: distance_def power2_commute)

lemma trig_ids: "trig rt cs \<subseteq> ids cs \<times> ids cs"
  by (auto simp: trig_def ids_def cid_at_def get_compound_id_def)

lemma cid_at_ids: "i < length cs \<Longrightarrow> cid_at cs i \<in> ids cs"
  by (simp add: cid_at_def ids_def get_compound_id_def)

definition state_view :: "(int \<Rightarrow> nat list) \<Rightarrow> adjacency \<times> store \<Rightarrow> int \<Rightarrow> int list option" where
  "state_view ba s = adj_view ba (fst s) (snd s)"

definition rows_rel :: "(int \<Rightarrow> int list option) \<Rightarrow> (int \<times> int) set" where
  "rows_rel v = {(a, x). \<exists>xs. v a = Some xs \<and> x \<in> set xs}"

lemma view_le_rows: "view_le v v' \<Longrightarrow> rows_rel v \<subseteq> rows_rel v'"
  unfolding view_le_def rows_rel_def by fastforce

lemma sound_rows: "sound rt cs v \<longleftrightarrow> rows_rel v \<subseteq> trig rt cs"
  unfolding sound_def rows_rel_def by auto

lemma dom_adj_view: "dom (adj_view ba adj st) = dom (m_lookup ba adj)"
  by (auto simp: adj_view_def)

lemma card_ids: "card (ids cs) \<le> length cs"
  unfolding ids_def by (rule order_trans[OF card_image_le card_length]) simp

definition good ::
  "(int \<Rightarrow> nat list) \<Rightarrow> (int \<Rightarrow> real) \<Rightarrow> compound list \<Rightarrow> adjacency \<times> store \<Rightarrow> bool" where
  "good ba rt cs s \<longleftrightarrow>
     adj_wf ba (fst s) (snd s) \<and> sound rt cs (state_view ba s) \<and>
     dom (state_view ba s) \<subseteq> ids cs \<and> (length cs \<le> 501 \<longrightarrow> exact ba (fst s))"

definition err :: "compound list \<Rightarrow> error \<Rightarrow> bool" where
  "err cs e \<longleftrightarrow> e = ScheduleExhausted \<and> 501 < length cs"

lemma trig_append_sat:
  assumes g: "good ba rt cs s" and row: "state_view ba s a = Some xs" and t: "(a, x) \<in> trig rt cs"
  shows "res_sat (err cs)
           (\<lambda>s'. good ba rt cs s' \<and> view_le (state_view ba s) (state_view ba s') \<and>
                 (a, x) \<in> rows_rel (state_view ba s'))
           (find_append ba a x s)"
proof -
  obtain adj st where s: "s = (adj, st)" by (cases s)
  from g s have wf: "adj_wf ba adj st" and sd: "sound rt cs (adj_view ba adj st)"
    and dm: "dom (adj_view ba adj st) \<subseteq> ids cs" and ex: "length cs \<le> 501 \<longrightarrow> exact ba adj"
    by (simp_all add: good_def state_view_def)
  from row s have r: "adj_view ba adj st a = Some xs" by (simp add: state_view_def)
  show ?thesis
    unfolding s
  proof (rule res_sat_mono[OF find_append_sat[OF wf r, of x]])
    fix s' :: "adjacency \<times> store"
    obtain adj' st' where s': "s' = (adj', st')" by (cases s')
    assume a: "case s' of (adj', st') \<Rightarrow> adj' = adj \<and> adj_wf ba adj' st' \<and>
       (\<forall>k. adj_view ba adj' st' k = (if k = a then Some (xs @ [x]) else adj_view ba adj st k))"
    from a[unfolded s' prod.case] have eq: "adj' = adj" and wf': "adj_wf ba adj' st'"
      and v': "\<And>k. adj_view ba adj' st' k = (if k = a then Some (xs @ [x]) else adj_view ba adj st k)"
      by blast+
    have "sound rt cs (adj_view ba adj' st')"
      using sd r t unfolding sound_def v' by (auto split: if_splits)
    moreover have "view_le (adj_view ba adj st) (adj_view ba adj' st')"
      using r unfolding view_le_def v' by auto
    moreover have "dom (adj_view ba adj' st') \<subseteq> ids cs"
      using dm unfolding dom_adj_view eq .
    moreover have "(a, x) \<in> rows_rel (adj_view ba adj' st')"
      by (simp add: rows_rel_def v')
    ultimately show "good ba rt cs s' \<and> view_le (state_view ba (adj, st)) (state_view ba s') \<and>
        (a, x) \<in> rows_rel (state_view ba s')"
      using wf' ex by (simp add: good_def state_view_def s' eq)
  qed simp
qed

lemma insert_new_array_exact:
  assumes "exact ba adj" "dom (m_lookup ba adj) \<subseteq> K" "finite K" "card K \<le> 501" "cid \<in> K"
  shows "\<exists>adj'. insert_new_array ba cid (adj, st) = Some (Inr (adj', st @ [[]])) \<and> exact ba adj'"
proof -
  from insert_kv_exact[OF assms, of "length st"] obtain m' old
    where "insert_kv ba adj cid (length st) = Some (Inr (m', old))" "exact ba m'" by blast
  then show ?thesis
    by (simp add: insert_new_array_def new_array_def bind_res_def ok_def)
qed

lemma new_row_sat:
  assumes g: "good ba rt cs s" and a: "a \<in> ids cs"
  shows "res_sat (err cs)
           (\<lambda>s'. good ba rt cs s' \<and>
                 (\<forall>k. state_view ba s' k = (if k = a then Some [] else state_view ba s k)))
           (insert_new_array ba a s)"
proof -
  obtain adj st where s: "s = (adj, st)" by (cases s)
  from g s have wf: "adj_wf ba adj st" and sd: "sound rt cs (adj_view ba adj st)"
    and dm: "dom (adj_view ba adj st) \<subseteq> ids cs" and ex: "length cs \<le> 501 \<longrightarrow> exact ba adj"
    by (simp_all add: good_def state_view_def)
  let ?P = "\<lambda>(adj', st'). adj_wf ba adj' st' \<and>
              (\<forall>k. adj_view ba adj' st' k = (if k = a then Some [] else adj_view ba adj st k))"
  let ?Q = "\<lambda>s'. (length cs \<le> 501 \<longrightarrow> exact ba (fst s'))"
  have base: "res_sat (\<lambda>e. e = ScheduleExhausted) ?P (insert_new_array ba a (adj, st))"
    by (rule insert_new_array_sat[OF wf])
  have extra: "res_sat (\<lambda>e. 501 < length cs) ?Q (insert_new_array ba a (adj, st))"
  proof (cases "length cs \<le> 501")
    case True
    with ex have e: "exact ba adj" by simp
    have fin: "finite (ids cs)" by (simp add: ids_def)
    have c: "card (ids cs) \<le> 501" using card_ids[of cs] True by simp
    from dm have d: "dom (m_lookup ba adj) \<subseteq> ids cs" by (simp add: dom_adj_view)
    from insert_new_array_exact[OF e d fin c a, of st] show ?thesis
      by (auto simp: res_sat_def)
  next
    case False
    show ?thesis
      by (rule res_sat_mono[OF base]) (use False in simp_all)
  qed
  show ?thesis
    unfolding s
  proof (rule res_sat_mono[OF res_sat_conj[OF base extra]])
    fix e assume "e = ScheduleExhausted \<and> 501 < length cs"
    then show "err cs e" by (simp add: err_def)
  next
    fix s' :: "adjacency \<times> store"
    obtain adj' st' where s': "s' = (adj', st')" by (cases s')
    assume asm: "(case s' of (adj', st') \<Rightarrow> adj_wf ba adj' st' \<and>
       (\<forall>k. adj_view ba adj' st' k = (if k = a then Some [] else adj_view ba adj st k))) \<and>
       (length cs \<le> 501 \<longrightarrow> exact ba (fst s'))"
    from asm[unfolded s' prod.case] have wf': "adj_wf ba adj' st'"
      and v': "\<And>k. adj_view ba adj' st' k = (if k = a then Some [] else adj_view ba adj st k)"
      and ex': "length cs \<le> 501 \<longrightarrow> exact ba adj'"
      by auto
    have "sound rt cs (adj_view ba adj' st')"
      using sd unfolding sound_def v' by (auto split: if_splits)
    moreover have "dom (adj_view ba adj' st') \<subseteq> ids cs"
      using dm a by (auto simp: v' dom_def split: if_splits)
    ultimately show "good ba rt cs s' \<and>
        (\<forall>k. state_view ba s' k = (if k = a then Some [] else state_view ba (adj, st) k))"
      using wf' v' ex' by (simp add: good_def state_view_def s')
  qed
qed

lemma ensure_row_sat:
  assumes g: "good ba rt cs s" and a: "a \<in> ids cs"
  shows "res_sat (err cs)
           (\<lambda>s'. good ba rt cs s' \<and> view_le (state_view ba s) (state_view ba s') \<and>
                 state_view ba s' a \<noteq> None)
           (if m_find ba (fst s) a = None then insert_new_array ba a s else ok s)"
proof (cases "m_find ba (fst s) a = None")
  case True
  then have n: "state_view ba s a = None"
    by (simp add: state_view_def adj_view_def m_find_lookup)
  have "res_sat (err cs)
           (\<lambda>s'. good ba rt cs s' \<and> view_le (state_view ba s) (state_view ba s') \<and>
                 state_view ba s' a \<noteq> None)
           (insert_new_array ba a s)"
  proof (rule res_sat_mono[OF new_row_sat[OF g a]])
    fix s' assume a: "good ba rt cs s' \<and>
        (\<forall>k. state_view ba s' k = (if k = a then Some [] else state_view ba s k))"
    then have "view_le (state_view ba s) (state_view ba s')"
      using n unfolding view_le_def by auto
    with a show "good ba rt cs s' \<and> view_le (state_view ba s) (state_view ba s') \<and>
        state_view ba s' a \<noteq> None" by simp
  qed simp
  with True show ?thesis by simp
next
  case False
  then have p: "state_view ba s a \<noteq> None"
    by (simp add: state_view_def adj_view_def m_find_lookup)
  from False have "(if m_find ba (fst s) a = None then insert_new_array ba a s else ok s) = ok s"
    by (simp only: if_False)
  with p g show ?thesis by (simp only: res_sat_ok view_le_refl) simp
qed

lemma build_inner_sat:
  assumes g: "good ba rt cs s" and row: "state_view ba s (cid_at cs i) \<noteq> None"
    and i: "i < length cs" and j: "j < length cs"
  shows "res_sat (err cs)
           (\<lambda>s'. good ba rt cs s' \<and> view_le (state_view ba s) (state_view ba s') \<and>
                 (j \<noteq> i \<and> in_range rt (cs ! i) (cs ! j) \<longrightarrow>
                    (cid_at cs i, cid_at cs j) \<in> rows_rel (state_view ba s')))
           (build_inner ba rt cs i j s)"
proof (cases "i = j")
  case True
  with g show ?thesis by (simp add: build_inner_def)
next
  case False
  define P1 where "P1 s' \<longleftrightarrow> good ba rt cs s' \<and> view_le (state_view ba s) (state_view ba s') \<and>
     (in_range rt (cs ! i) (cs ! j) \<longrightarrow> (cid_at cs i, cid_at cs j) \<in> rows_rel (state_view ba s'))" for s'
  define P2 where "P2 s' \<longleftrightarrow> good ba rt cs s' \<and> view_le (state_view ba s) (state_view ba s') \<and>
     (j \<noteq> i \<and> in_range rt (cs ! i) (cs ! j) \<longrightarrow> (cid_at cs i, cid_at cs j) \<in> rows_rel (state_view ba s'))" for s'
  have step1: "res_sat (err cs) P1
     (if distance rt (cs ! i) (cs ! j) \<le> get_radius (cs ! i)
      then find_append ba (cid_at cs i) (cid_at cs j) s else ok s)"
  proof (cases "in_range rt (cs ! i) (cs ! j)")
    case True
    from row obtain xs where xs: "state_view ba s (cid_at cs i) = Some xs" by auto
    have t: "(cid_at cs i, cid_at cs j) \<in> trig rt cs"
      using True i j False unfolding trig_def by blast
    have "res_sat (err cs) P1 (find_append ba (cid_at cs i) (cid_at cs j) s)"
      by (rule res_sat_mono[OF trig_append_sat[OF g xs t]]) (simp_all add: P1_def)
    with True show ?thesis by (simp add: in_range_def)
  next
    case F: False
    with g show ?thesis by (simp add: in_range_def P1_def)
  qed
  have step2: "res_sat (err cs) P2
     (if distance rt (cs ! i) (cs ! j) \<le> get_radius (cs ! j)
      then bind_res
             (if m_find ba (fst s1) (cid_at cs j) = None
              then insert_new_array ba (cid_at cs j) s1 else ok s1)
             (find_append ba (cid_at cs j) (cid_at cs i))
      else ok s1)" if p1: "P1 s1" for s1
  proof (cases "in_range rt (cs ! j) (cs ! i)")
    case True
    from p1 have g1: "good ba rt cs s1" by (simp add: P1_def)
    have t: "(cid_at cs j, cid_at cs i) \<in> trig rt cs"
      using True i j False unfolding trig_def by blast
    have "res_sat (err cs) P2
       (bind_res
             (if m_find ba (fst s1) (cid_at cs j) = None
              then insert_new_array ba (cid_at cs j) s1 else ok s1)
             (find_append ba (cid_at cs j) (cid_at cs i)))"
    proof (rule res_sat_bind[OF ensure_row_sat[OF g1 cid_at_ids[OF j]]])
      fix s2
      assume a2: "good ba rt cs s2 \<and> view_le (state_view ba s1) (state_view ba s2) \<and>
                   state_view ba s2 (cid_at cs j) \<noteq> None"
      then obtain ys where ys: "state_view ba s2 (cid_at cs j) = Some ys" by auto
      from a2 have g2: "good ba rt cs s2" and le12: "view_le (state_view ba s1) (state_view ba s2)"
        by simp_all
      show "res_sat (err cs) P2 (find_append ba (cid_at cs j) (cid_at cs i) s2)"
      proof (rule res_sat_mono[OF trig_append_sat[OF g2 ys t]])
        fix s3
        assume a3: "good ba rt cs s3 \<and> view_le (state_view ba s2) (state_view ba s3) \<and>
                    (cid_at cs j, cid_at cs i) \<in> rows_rel (state_view ba s3)"
        from p1 have le01: "view_le (state_view ba s) (state_view ba s1)" by (simp add: P1_def)
        from a3 have le23: "view_le (state_view ba s2) (state_view ba s3)" by simp
        have le13: "view_le (state_view ba s1) (state_view ba s3)"
          by (rule view_le_trans[OF le12 le23])
        have le03: "view_le (state_view ba s) (state_view ba s3)"
          by (rule view_le_trans[OF le01 le13])
        from p1 view_le_rows[OF le13] a3 le03 show "P2 s3"
          by (auto simp: P1_def P2_def)
      qed simp
    qed
    with True show ?thesis by (simp add: in_range_def distance_commute)
  next
    case F: False
    with p1 show ?thesis by (simp add: in_range_def distance_commute P1_def P2_def)
  qed
  have "res_sat (err cs) P2
     (bind_res
        (if distance rt (cs ! i) (cs ! j) \<le> get_radius (cs ! i)
         then find_append ba (cid_at cs i) (cid_at cs j) s else ok s)
        (\<lambda>s1. if distance rt (cs ! i) (cs ! j) \<le> get_radius (cs ! j)
           then bind_res
             (if m_find ba (fst s1) (cid_at cs j) = None
              then insert_new_array ba (cid_at cs j) s1 else ok s1)
             (find_append ba (cid_at cs j) (cid_at cs i))
           else ok s1))"
    by (rule res_sat_bind[OF step1]) (rule step2)
  then have "res_sat (err cs)
     (\<lambda>s'. good ba rt cs s' \<and> view_le (state_view ba s) (state_view ba s') \<and>
                 (j \<noteq> i \<and> in_range rt (cs ! i) (cs ! j) \<longrightarrow>
                    (cid_at cs i, cid_at cs j) \<in> rows_rel (state_view ba s')))
     (bind_res
        (if distance rt (cs ! i) (cs ! j) \<le> get_radius (cs ! i)
         then find_append ba (cid_at cs i) (cid_at cs j) s else ok s)
        (\<lambda>s1. if distance rt (cs ! i) (cs ! j) \<le> get_radius (cs ! j)
           then bind_res
             (if m_find ba (fst s1) (cid_at cs j) = None
              then insert_new_array ba (cid_at cs j) s1 else ok s1)
             (find_append ba (cid_at cs j) (cid_at cs i))
           else ok s1))"
    by (rule res_sat_mono) (simp_all add: P2_def)
  with False show ?thesis
    by (simp only: build_inner_def Let_def cid_at_def if_True if_False simp_thms)
qed


definition outer_inv ::
  "(int \<Rightarrow> nat list) \<Rightarrow> (int \<Rightarrow> real) \<Rightarrow> compound list \<Rightarrow> nat \<Rightarrow> adjacency \<times> store \<Rightarrow> bool" where
  "outer_inv ba rt cs i s \<longleftrightarrow>
     good ba rt cs s \<and> (\<forall>i'<i. state_view ba s (cid_at cs i') \<noteq> None) \<and>
     (distinct (map c_cid cs) \<longrightarrow> (\<forall>i'<i. partial_row rt cs (state_view ba s) i' (length cs)))"

definition inner_inv ::
  "(int \<Rightarrow> nat list) \<Rightarrow> (int \<Rightarrow> real) \<Rightarrow> compound list \<Rightarrow> (int \<Rightarrow> int list option) \<Rightarrow> nat \<Rightarrow> nat
     \<Rightarrow> adjacency \<times> store \<Rightarrow> bool" where
  "inner_inv ba rt cs v1 i j s \<longleftrightarrow>
     good ba rt cs s \<and> view_le v1 (state_view ba s) \<and> partial_row rt cs (state_view ba s) i j"

lemma partial_row_Suc:
  assumes "partial_row rt cs v i j" and "view_le v v'"
    and "j \<noteq> i \<and> in_range rt (cs ! i) (cs ! j) \<longrightarrow> (cid_at cs i, cid_at cs j) \<in> rows_rel v'"
  shows "partial_row rt cs v' i (Suc j)"
proof -
  from partial_row_mono[OF assms(1,2)] obtain xs where xs: "v' (cid_at cs i) = Some xs"
    and old: "\<forall>j'<j. j' \<noteq> i \<and> in_range rt (cs ! i) (cs ! j') \<longrightarrow> cid_at cs j' \<in> set xs"
    unfolding partial_row_def by blast
  from assms(3) xs have new: "j \<noteq> i \<and> in_range rt (cs ! i) (cs ! j) \<longrightarrow> cid_at cs j \<in> set xs"
    by (auto simp: rows_rel_def)
  have "\<forall>j'<Suc j. j' \<noteq> i \<and> in_range rt (cs ! i) (cs ! j') \<longrightarrow> cid_at cs j' \<in> set xs"
  proof (intro allI impI)
    fix j' assume "j' < Suc j" and c: "j' \<noteq> i \<and> in_range rt (cs ! i) (cs ! j')"
    then have "j' < j \<or> j' = j" by auto
    with old new c show "cid_at cs j' \<in> set xs" by blast
  qed
  with xs show ?thesis unfolding partial_row_def by blast
qed

lemma partial_row_cong:
  "v (cid_at cs i) = v' (cid_at cs i) \<Longrightarrow> partial_row rt cs v i j = partial_row rt cs v' i j"
  by (simp add: partial_row_def)

lemma inner_loop_sat:
  assumes g: "good ba rt cs s1" and row: "state_view ba s1 (cid_at cs i) = Some []"
    and i: "i < length cs"
  shows "res_sat (err cs) (inner_inv ba rt cs (state_view ba s1) i (length cs))
           (for_loop [0..<length cs] (build_inner ba rt cs i) s1)"
proof (rule for_loop_upt_sat)
  show "inner_inv ba rt cs (state_view ba s1) i 0 s1"
    using g row by (simp add: inner_inv_def partial_row_def)
  show "0 \<le> length cs" by simp
next
  fix j s
  assume j: "j < length cs" and inv: "inner_inv ba rt cs (state_view ba s1) i j s"
  from inv have gs: "good ba rt cs s" and le: "view_le (state_view ba s1) (state_view ba s)"
    and pr: "partial_row rt cs (state_view ba s) i j"
    by (simp_all add: inner_inv_def)
  from row have "state_view ba s1 (cid_at cs i) \<noteq> None" by simp
  from view_le_present[OF le this] have present: "state_view ba s (cid_at cs i) \<noteq> None" .
  show "res_sat (err cs) (inner_inv ba rt cs (state_view ba s1) i (Suc j)) (build_inner ba rt cs i j s)"
  proof (rule res_sat_mono[OF build_inner_sat[OF gs present i j]])
    fix s'
    assume a: "good ba rt cs s' \<and> view_le (state_view ba s) (state_view ba s') \<and>
       (j \<noteq> i \<and> in_range rt (cs ! i) (cs ! j) \<longrightarrow>
          (cid_at cs i, cid_at cs j) \<in> rows_rel (state_view ba s'))"
    then have le': "view_le (state_view ba s) (state_view ba s')" by simp
    from a have new: "j \<noteq> i \<and> in_range rt (cs ! i) (cs ! j) \<longrightarrow>
          (cid_at cs i, cid_at cs j) \<in> rows_rel (state_view ba s')" by simp
    from a view_le_trans[OF le le'] partial_row_Suc[OF pr le' new]
    show "inner_inv ba rt cs (state_view ba s1) i (Suc j) s'"
      by (simp add: inner_inv_def)
  qed simp
qed

lemma cid_at_distinct:
  assumes "distinct (map c_cid cs)" "i < length cs" "j < length cs" "i \<noteq> j"
  shows "cid_at cs i \<noteq> cid_at cs j"
proof -
  have l: "i < length (map c_cid cs)" "j < length (map c_cid cs)" using assms(2,3) by simp_all
  from nth_eq_iff_index_eq[OF assms(1) l] assms(4)
  have "map c_cid cs ! i \<noteq> map c_cid cs ! j" by simp
  with assms(2,3) show ?thesis by (simp add: cid_at_def get_compound_id_def)
qed

lemma build_outer_sat:
  assumes inv: "outer_inv ba rt cs i s" and i: "i < length cs"
  shows "res_sat (err cs) (outer_inv ba rt cs (Suc i)) (build_outer ba rt cs i s)"
  unfolding build_outer_def cid_at_def[symmetric]
proof (rule res_sat_bind[OF new_row_sat[where a = "cid_at cs i"]])
  show "good ba rt cs s" using inv by (simp add: outer_inv_def)
  show "cid_at cs i \<in> ids cs" by (rule cid_at_ids[OF i])
next
  fix s1
  assume a: "good ba rt cs s1 \<and>
     (\<forall>k. state_view ba s1 k = (if k = cid_at cs i then Some [] else state_view ba s k))"
  then have g1: "good ba rt cs s1"
    and v1: "\<And>k. state_view ba s1 k = (if k = cid_at cs i then Some [] else state_view ba s k)"
    by simp_all
  have row: "state_view ba s1 (cid_at cs i) = Some []" by (simp add: v1)
  show "res_sat (err cs) (outer_inv ba rt cs (Suc i)) (for_loop [0..<length cs] (build_inner ba rt cs i) s1)"
  proof (rule res_sat_mono[OF inner_loop_sat[OF g1 row i]])
    fix s2
    assume "inner_inv ba rt cs (state_view ba s1) i (length cs) s2"
    then have g2: "good ba rt cs s2" and le: "view_le (state_view ba s1) (state_view ba s2)"
      and pr: "partial_row rt cs (state_view ba s2) i (length cs)"
      by (simp_all add: inner_inv_def)
    have present: "state_view ba s2 (cid_at cs i') \<noteq> None" if "i' < Suc i" for i'
    proof (cases "i' = i")
      case True
      with pr show ?thesis by (auto simp: partial_row_def)
    next
      case False
      with that have "i' < i" by simp
      with inv have "state_view ba s (cid_at cs i') \<noteq> None" by (simp add: outer_inv_def)
      then have "state_view ba s1 (cid_at cs i') \<noteq> None" by (simp add: v1)
      from view_le_present[OF le this] show ?thesis .
    qed
    have rows: "partial_row rt cs (state_view ba s2) i' (length cs)"
      if d: "distinct (map c_cid cs)" and i': "i' < Suc i" for i'
    proof (cases "i' = i")
      case True
      with pr show ?thesis by simp
    next
      case False
      with i' have lt: "i' < i" by simp
      with inv d have p: "partial_row rt cs (state_view ba s) i' (length cs)"
        by (simp add: outer_inv_def)
      from lt i have "i' < length cs" by simp
      from cid_at_distinct[OF d this i False] have "cid_at cs i' \<noteq> cid_at cs i" .
      then have "state_view ba s1 (cid_at cs i') = state_view ba s (cid_at cs i')"
        by (simp add: v1)
      from partial_row_cong[where v = "state_view ba s1" and v' = "state_view ba s", OF this] p
      have "partial_row rt cs (state_view ba s1) i' (length cs)"
        by simp
      from partial_row_mono[OF this le] show ?thesis .
    qed
    from g2 present rows show "outer_inv ba rt cs (Suc i) s2"
      by (simp add: outer_inv_def)
  qed simp
qed

lemma good_init: "good ba rt cs (Map_init a b, [])"
  by (simp add: good_def adj_wf_init state_view_def sound_def adj_view_init Map_init_exact dom_def)

lemma build_adjacency_sat:
  "res_sat (err cs) (outer_inv ba rt cs (length cs)) (build_adjacency ba rt a b cs)"
  unfolding build_adjacency_def
proof (rule for_loop_upt_sat)
  show "outer_inv ba rt cs 0 (Map_init a b, [])"
    by (simp add: outer_inv_def good_init)
  show "0 \<le> length cs" by simp
next
  fix i s
  assume "i < length cs" "outer_inv ba rt cs i s"
  then show "res_sat (err cs) (outer_inv ba rt cs (Suc i)) (build_outer ba rt cs i s)"
    by (rule build_outer_sat[rotated])
qed

text \<open>What the propagation needs from the adjacency map that was built.\<close>

definition rows_ok :: "(int \<Rightarrow> nat list) \<Rightarrow> adjacency \<Rightarrow> store \<Rightarrow> int set \<Rightarrow> bool" where
  "rows_ok ba adj st I \<longleftrightarrow>
     adj_wf ba adj st \<and> dom (adj_view ba adj st) = I \<and> rows_rel (adj_view ba adj st) \<subseteq> I \<times> I"

lemma ids_cid_at: "a \<in> ids cs \<Longrightarrow> \<exists>i<length cs. a = cid_at cs i"
  by (auto simp: ids_def cid_at_def get_compound_id_def in_set_conv_nth)

lemma built_rows_ok:
  assumes "outer_inv ba rt cs (length cs) (adj, st)"
  shows "rows_ok ba adj st (ids cs)"
proof -
  from assms have g: "good ba rt cs (adj, st)"
    and present: "\<And>i. i < length cs \<Longrightarrow> adj_view ba adj st (cid_at cs i) \<noteq> None"
    by (simp_all add: outer_inv_def state_view_def)
  from g have wf: "adj_wf ba adj st" and sd: "rows_rel (adj_view ba adj st) \<subseteq> trig rt cs"
    and dm: "dom (adj_view ba adj st) \<subseteq> ids cs"
    by (simp_all add: good_def state_view_def sound_rows)
  have "ids cs \<subseteq> dom (adj_view ba adj st)"
  proof
    fix a assume "a \<in> ids cs"
    from ids_cid_at[OF this] present show "a \<in> dom (adj_view ba adj st)" by auto
  qed
  with dm have "dom (adj_view ba adj st) = ids cs" by auto
  with wf sd trig_ids[of rt cs] show ?thesis by (auto simp: rows_ok_def)
qed


section \<open>chain\_reaction: one propagation\<close>

definition queue_values :: "(nat, int) priority_queue \<Rightarrow> int set" where
  "queue_values q = get_value ` set (pq_arr q)"

definition visited_set :: "bool list \<Rightarrow> int set" where
  "visited_set vis = {a. 0 \<le> a \<and> a < int (length vis) \<and> vis ! nat a}"

lemma queue_values_insert_fifo:
  "queue_values (insert_fifo q x) = insert x (queue_values q)"
proof -
  have "set (pq_arr (insert_fifo q x)) = set_mset (mset (pq_arr (pq_insert q (pq_max_priority q) x)))"
    by (simp add: insert_fifo_def)
  also have "\<dots> = insert (Entry (pq_max_priority q) x) (set (pq_arr q))"
    by (simp only: pq_insert_mset) simp
  finally show ?thesis by (simp add: queue_values_def)
qed

lemma queue_values_remove_min:
  fixes q :: "(nat, int) priority_queue"
  assumes "pq_arr q \<noteq> []"
  shows "\<exists>cur q'. remove_min q = (Some cur, q') \<and> queue_values q = insert cur (queue_values q')"
proof -
  from remove_min_nonempty[OF assms] obtain q' where
    rm: "remove_min q = (Some (get_value (pq_arr q ! 0)), q')"
    and ms: "mset (pq_arr q) = add_mset (pq_arr q ! 0) (mset (pq_arr q'))"
    by blast
  from ms have "set_mset (mset (pq_arr q)) = set_mset (add_mset (pq_arr q ! 0) (mset (pq_arr q')))"
    by simp
  then have st: "set (pq_arr q) = insert (pq_arr q ! 0) (set (pq_arr q'))" by simp
  then have "queue_values q = insert (get_value (pq_arr q ! 0)) (queue_values q')"
    by (simp add: queue_values_def)
  with rm show ?thesis by blast
qed

lemma visited_set_replicate: "visited_set (replicate n False) = {}"
  by (auto simp: visited_set_def)

lemma visited_set_update:
  assumes "0 \<le> a" "a < int (length vis)"
  shows "visited_set (vis[nat a := True]) = insert a (visited_set vis)"
proof (rule set_eqI)
  fix b
  show "b \<in> visited_set (vis[nat a := True]) \<longleftrightarrow> b \<in> insert a (visited_set vis)"
  proof (cases "b = a")
    case True
    with assms show ?thesis by (simp add: visited_set_def)
  next
    case False
    show ?thesis
    proof (cases "0 \<le> b")
      case True
      with False assms(1) have "nat a \<noteq> nat b" by simp
      then have "vis[nat a := True] ! nat b = vis ! nat b" by (rule nth_list_update_neq)
      with False show ?thesis by (simp add: visited_set_def)
    next
      case F: False
      with False show ?thesis by (simp add: visited_set_def)
    qed
  qed
qed

lemma finite_visited_set: "finite (visited_set vis)"
proof -
  have "visited_set vis \<subseteq> {0..<int (length vis)}" by (auto simp: visited_set_def)
  then show ?thesis by (rule finite_subset) simp
qed

lemma visited_set_iff:
  "0 \<le> a \<Longrightarrow> a < int (length vis) \<Longrightarrow> a \<in> visited_set vis \<longleftrightarrow> vis ! nat a"
  by (simp add: visited_set_def)

lemma already_triggered_iff: "already_triggered xs x \<longleftrightarrow> x \<in> set xs"
  by (induction xs) auto

lemma merge_loop_props:
  assumes "na < length st" "ta < length st" "\<forall>j\<in>set js. j < length (st ! ta)"
    "set (st ! na) \<subseteq> S" "set (st ! ta) \<subseteq> S"
  shows "length (merge_loop na ta js st) = length st \<and>
         (\<forall>a. a \<noteq> na \<longrightarrow> merge_loop na ta js st ! a = st ! a) \<and>
         (\<exists>ys. merge_loop na ta js st ! na = st ! na @ ys) \<and>
         set (merge_loop na ta js st ! na) \<subseteq> S"
  using assms
proof (induction js arbitrary: st)
  case Nil
  then show ?case by simp
next
  case (Cons j js)
  define t where "t = st ! ta ! j"
  from Cons.prems have jl: "j < length (st ! ta)" by simp
  then have tS: "t \<in> S" using Cons.prems(5) by (auto simp: t_def)
  show ?case
  proof (cases "already_triggered (st ! na) t")
    case True
    have "length (merge_loop na ta js st) = length st \<and>
         (\<forall>a. a \<noteq> na \<longrightarrow> merge_loop na ta js st ! a = st ! a) \<and>
         (\<exists>ys. merge_loop na ta js st ! na = st ! na @ ys) \<and>
         set (merge_loop na ta js st ! na) \<subseteq> S"
      using Cons.prems by (intro Cons.IH) simp_all
    with True show ?thesis by (simp add: t_def[symmetric])
  next
    case False
    define st1 where "st1 = append_at st na t"
    have l1: "length st1 = length st" by (simp add: st1_def append_at_def)
    have n1: "st1 ! na = st ! na @ [t]" using Cons.prems(1) by (simp add: st1_def append_at_def)
    have o1: "st1 ! a = st ! a" if "a \<noteq> na" for a using that by (simp add: st1_def append_at_def)
    have t1: "st1 ! ta = (if ta = na then st ! na @ [t] else st ! ta)"
      using n1 o1 by simp
    have ih: "length (merge_loop na ta js st1) = length st1 \<and>
         (\<forall>a. a \<noteq> na \<longrightarrow> merge_loop na ta js st1 ! a = st1 ! a) \<and>
         (\<exists>ys. merge_loop na ta js st1 ! na = st1 ! na @ ys) \<and>
         set (merge_loop na ta js st1 ! na) \<subseteq> S"
    proof (rule Cons.IH)
      show "na < length st1" "ta < length st1" using Cons.prems(1,2) l1 by simp_all
      show "\<forall>j\<in>set js. j < length (st1 ! ta)"
        using Cons.prems(3) by (auto simp: t1)
      show "set (st1 ! na) \<subseteq> S" using Cons.prems(4) tS by (simp add: n1)
      show "set (st1 ! ta) \<subseteq> S" using Cons.prems(4,5) tS by (simp add: t1)
    qed
    from ih obtain ys where ys: "merge_loop na ta js st1 ! na = st1 ! na @ ys" by blast
    then have "merge_loop na ta js st1 ! na = st ! na @ ([t] @ ys)" by (simp add: n1)
    then have ex: "\<exists>zs. merge_loop na ta js st1 ! na = st ! na @ zs" by blast
    have m: "merge_loop na ta (j # js) st = merge_loop na ta js st1"
      using False by (simp add: t_def[symmetric] st1_def)
    from ih ex show ?thesis
      unfolding m by (simp add: l1 o1)
  qed
qed


definition bfs_inv ::
  "(int \<Rightarrow> nat list) \<Rightarrow> adjacency \<Rightarrow> nat \<Rightarrow> int set \<Rightarrow> (int \<times> int) set \<Rightarrow> int \<Rightarrow> int set
     \<Rightarrow> bfs_state \<Rightarrow> bool" where
  "bfs_inv ba adj n I R start X s \<longleftrightarrow>
     rows_ok ba adj (bs_store s) I \<and> length (bs_visited s) = n \<and>
     R \<subseteq> rows_rel (adj_view ba adj (bs_store s)) \<and>
     rows_rel (adj_view ba adj (bs_store s)) \<subseteq> R\<^sup>+ \<and>
     start \<in> visited_set (bs_visited s) \<and>
     visited_set (bs_visited s) \<subseteq> I \<and>
     visited_set (bs_visited s) \<subseteq> R\<^sup>* `` {start} \<and>
     queue_values (bs_queue s) \<subseteq> visited_set (bs_visited s) \<and>
     (\<forall>a \<in> visited_set (bs_visited s) - queue_values (bs_queue s) - X.
        R `` {a} \<subseteq> visited_set (bs_visited s)) \<and>
     bs_count s = int (card (visited_set (bs_visited s)))"

lemma merged_view:
  assumes wf: "adj_wf ba adj st" and lk: "m_lookup ba adj cur = Some na"
    and len: "length st' = length st"
    and oth: "\<forall>a. a \<noteq> na \<longrightarrow> st' ! a = st ! a"
  shows "adj_wf ba adj st'"
    and "adj_view ba adj st' k = (if k = cur then Some (st' ! na) else adj_view ba adj st k)"
proof -
  show "adj_wf ba adj st'" using wf len by (simp add: adj_wf_def)
  show "adj_view ba adj st' k = (if k = cur then Some (st' ! na) else adj_view ba adj st k)"
  proof (cases "k = cur")
    case True
    with lk show ?thesis by (simp add: adj_view_def)
  next
    case False
    show ?thesis
    proof (cases "m_lookup ba adj k")
      case None
      with False show ?thesis by (simp add: adj_view_def)
    next
      case (Some addr)
      with wf lk False have "addr \<noteq> na" unfolding adj_wf_def by blast
      with oth have "st' ! addr = st ! addr" by simp
      with Some False show ?thesis by (simp add: adj_view_def)
    qed
  qed
qed

lemma visit_neighbour_sat:
  assumes I: "I \<subseteq> {0..<int n}"
    and inv: "bfs_inv ba adj n I R start {cur} s"
    and cur: "cur \<in> visited_set (bs_visited s)"
    and lk: "m_lookup ba adj cur = Some na"
    and i: "i < length row0"
    and pre: "take (length row0) (bs_store s ! na) = row0"
  shows "res_sat (\<lambda>e. False)
           (\<lambda>s'. bfs_inv ba adj n I R start {cur} s' \<and>
                 take (length row0) (bs_store s' ! na) = row0 \<and>
                 visited_set (bs_visited s) \<subseteq> visited_set (bs_visited s') \<and>
                 row0 ! i \<in> visited_set (bs_visited s'))
           (visit_neighbour ba adj na i s)"
proof -
  define st where "st = bs_store s"
  define vis where "vis = bs_visited s"
  define v where "v = adj_view ba adj st"
  define V where "V = visited_set vis"
  define Q where "Q = queue_values (bs_queue s)"
  from inv have ro: "rows_ok ba adj st I" and lv: "length vis = n"
    and R1: "R \<subseteq> rows_rel v" and R2: "rows_rel v \<subseteq> R\<^sup>+"
    and sV: "start \<in> V" and VI: "V \<subseteq> I" and VR: "V \<subseteq> R\<^sup>* `` {start}"
    and QV: "Q \<subseteq> V" and cl: "\<forall>a \<in> V - Q - {cur}. R `` {a} \<subseteq> V"
    and cnt: "bs_count s = int (card V)"
    by (simp_all add: bfs_inv_def st_def vis_def v_def V_def Q_def)
  from ro have wf: "adj_wf ba adj st" and dv: "dom v = I" and rI: "rows_rel v \<subseteq> I \<times> I"
    by (simp_all add: rows_ok_def v_def)
  from wf lk have na: "na < length st" by (auto simp: adj_wf_def)
  from lk have vcur: "v cur = Some (st ! na)" by (simp add: v_def adj_view_def)
  from pre have pre': "take (length row0) (st ! na) = row0" by (simp add: st_def)
  have ll: "length row0 \<le> length (st ! na)"
  proof -
    have "length (take (length row0) (st ! na)) = length row0" by (simp only: pre')
    then show ?thesis by simp
  qed
  define nb where "nb = st ! na ! i"
  have nb0: "row0 ! i = nb"
  proof -
    have "take (length row0) (st ! na) ! i = st ! na ! i" using i by simp
    then show ?thesis by (simp only: pre' nb_def)
  qed
  from i ll have "nb \<in> set (st ! na)" by (simp add: nb_def)
  with vcur have cn: "(cur, nb) \<in> rows_rel v" by (auto simp: rows_rel_def)
  with rI have nbI: "nb \<in> I" by auto
  with I lv have rng: "0 \<le> nb" "nb < int (length vis)" by auto
  from cn R2 have cnR: "(cur, nb) \<in> R\<^sup>+" by auto
  have get: "da_get_at vis nb = ok (vis ! nat nb)" using rng by (simp add: da_get_at_def)
  show ?thesis
  proof (cases "vis ! nat nb")
    case True
    then have e: "visit_neighbour ba adj na i s = ok s"
      using get by (simp add: visit_neighbour_def Let_def st_def[symmetric] vis_def[symmetric]
          nb_def[symmetric] bind_res_def ok_def)
    from True rng have "nb \<in> V" by (simp add: V_def visited_set_def)
    with inv pre show ?thesis unfolding e by (simp add: nb0 V_def vis_def)
  next
    case False
    with rng have nbV: "nb \<notin> V" by (simp add: V_def visited_set_def)
    have set: "da_set_at vis nb True = ok (vis[nat nb := True])"
      using rng by (simp add: da_set_at_def)
    from nbI dv obtain row_nb where vnb: "v nb = Some row_nb" by auto
    then obtain ta where lkt: "m_lookup ba adj nb = Some ta" and rnb: "row_nb = st ! ta"
      by (auto simp: v_def adj_view_def)
    from wf lkt have ta: "ta < length st" by (auto simp: adj_wf_def)
    define st' where "st' = merge_loop na ta [0..<length (st ! ta)] st"
    define s' where "s' = s\<lparr> bs_store := st', bs_visited := vis[nat nb := True],
        bs_queue := insert_fifo (bs_queue s) nb, bs_count := bs_count s + 1 \<rparr>"
    have e: "visit_neighbour ba adj na i s = ok s'"
      using get set False lkt
      by (simp add: visit_neighbour_def Let_def st_def[symmetric] vis_def[symmetric]
          nb_def[symmetric] bind_res_def ok_def m_find_lookup s'_def st'_def)
    have mp: "length st' = length st \<and> (\<forall>a. a \<noteq> na \<longrightarrow> st' ! a = st ! a) \<and>
         (\<exists>ys. st' ! na = st ! na @ ys) \<and> set (st' ! na) \<subseteq> set (st ! na) \<union> set (st ! ta)"
      unfolding st'_def by (rule merge_loop_props[OF na ta]) simp_all
    then obtain ys where len': "length st' = length st"
      and oth: "\<forall>a. a \<noteq> na \<longrightarrow> st' ! a = st ! a"
      and app: "st' ! na = st ! na @ ys"
      and sub: "set (st' ! na) \<subseteq> set (st ! na) \<union> set (st ! ta)"
      by blast
    define v' where "v' = adj_view ba adj st'"
    note mv = merged_view[OF wf lk len' oth]
    have v'k: "v' k = (if k = cur then Some (st' ! na) else v k)" for k
      by (simp add: v'_def v_def mv(2))
    have wf': "adj_wf ba adj st'" by (rule mv(1))
    have dv': "dom v' = I"
    proof -
      have "dom v' = dom v" using vcur by (auto simp: v'k dom_def)
      with dv show ?thesis by simp
    qed
    have new_rows: "rows_rel v' \<subseteq> rows_rel v \<union> {(cur, x) | x. (nb, x) \<in> rows_rel v}"
    proof
      fix p assume "p \<in> rows_rel v'"
      then obtain a x xs where p: "p = (a, x)" and vx: "v' a = Some xs" and x: "x \<in> set xs"
        by (auto simp: rows_rel_def)
      show "p \<in> rows_rel v \<union> {(cur, x) | x. (nb, x) \<in> rows_rel v}"
      proof (cases "a = cur")
        case True
        with vx have "xs = st' ! na" by (simp add: v'k)
        with x sub have "x \<in> set (st ! na) \<or> x \<in> set (st ! ta)" by auto
        then show ?thesis
        proof
          assume "x \<in> set (st ! na)"
          with vcur True p show ?thesis by (auto simp: rows_rel_def)
        next
          assume "x \<in> set (st ! ta)"
          with vnb rnb have "(nb, x) \<in> rows_rel v" by (auto simp: rows_rel_def)
          with True p show ?thesis by auto
        qed
      next
        case False
        with vx have "v a = Some xs" by (simp add: v'k)
        with x p show ?thesis by (auto simp: rows_rel_def)
      qed
    qed
    have old_rows: "rows_rel v \<subseteq> rows_rel v'"
    proof
      fix p assume "p \<in> rows_rel v"
      then obtain a x xs where p: "p = (a, x)" and vx: "v a = Some xs" and x: "x \<in> set xs"
        by (auto simp: rows_rel_def)
      show "p \<in> rows_rel v'"
      proof (cases "a = cur")
        case True
        with vx vcur have "xs = st ! na" by simp
        with x app have "x \<in> set (st' ! na)" by simp
        with True p show ?thesis by (auto simp: rows_rel_def v'k)
      next
        case False
        with vx x p show ?thesis by (auto simp: rows_rel_def v'k)
      qed
    qed
    have rI': "rows_rel v' \<subseteq> I \<times> I"
    proof
      fix p assume "p \<in> rows_rel v'"
      with new_rows have "p \<in> rows_rel v \<or> (\<exists>x. p = (cur, x) \<and> (nb, x) \<in> rows_rel v)" by auto
      then show "p \<in> I \<times> I"
      proof
        assume "p \<in> rows_rel v" with rI show ?thesis by auto
      next
        assume "\<exists>x. p = (cur, x) \<and> (nb, x) \<in> rows_rel v"
        then obtain x where p: "p = (cur, x)" and "(nb, x) \<in> rows_rel v" by blast
        with rI have "x \<in> I" by auto
        moreover from cn rI have "cur \<in> I" by auto
        ultimately show ?thesis by (simp add: p)
      qed
    qed
    have R2': "rows_rel v' \<subseteq> R\<^sup>+"
    proof
      fix p assume "p \<in> rows_rel v'"
      with new_rows have "p \<in> rows_rel v \<or> (\<exists>x. p = (cur, x) \<and> (nb, x) \<in> rows_rel v)" by auto
      then show "p \<in> R\<^sup>+"
      proof
        assume "p \<in> rows_rel v" with R2 show ?thesis by auto
      next
        assume "\<exists>x. p = (cur, x) \<and> (nb, x) \<in> rows_rel v"
        then obtain x where p: "p = (cur, x)" and "(nb, x) \<in> rows_rel v" by blast
        with R2 have "(nb, x) \<in> R\<^sup>+" by auto
        with cnR have "(cur, x) \<in> R\<^sup>+" by (rule trancl_trans)
        then show ?thesis by (simp add: p)
      qed
    qed
    have V': "visited_set (vis[nat nb := True]) = insert nb V"
      unfolding V_def by (rule visited_set_update[OF rng])
    have Q': "queue_values (insert_fifo (bs_queue s) nb) = insert nb Q"
      by (simp add: queue_values_insert_fifo Q_def)
    from cur have curV: "cur \<in> V" by (simp add: V_def vis_def)
    have nbR: "nb \<in> R\<^sup>* `` {start}"
    proof -
      from curV VR have "(start, cur) \<in> R\<^sup>*" by auto
      moreover from cnR have "(cur, nb) \<in> R\<^sup>*" by (rule trancl_into_rtrancl)
      ultimately have "(start, nb) \<in> R\<^sup>*" by (rule rtrancl_trans)
      then show ?thesis by simp
    qed
    have finV: "finite V" unfolding V_def by (rule finite_visited_set)
    have cnt': "bs_count s + 1 = int (card (insert nb V))"
      using finV nbV cnt by simp
    have cl': "\<forall>a \<in> insert nb V - insert nb Q - {cur}. R `` {a} \<subseteq> insert nb V"
    proof
      fix a assume "a \<in> insert nb V - insert nb Q - {cur}"
      then have "a \<in> V - Q - {cur}" by auto
      with cl have "R `` {a} \<subseteq> V" by blast
      then show "R `` {a} \<subseteq> insert nb V" by auto
    qed
    have ro': "rows_ok ba adj st' I"
      using wf' dv' rI' by (simp add: rows_ok_def v'_def)
    have f: "bs_visited s' = vis[nat nb := True]" "bs_queue s' = insert_fifo (bs_queue s) nb"
      by (simp_all add: s'_def)
    have inv': "bfs_inv ba adj n I R start {cur} s'"
      unfolding bfs_inv_def
    proof (intro conjI)
      show "rows_ok ba adj (bs_store s') I" using ro' by (simp add: s'_def)
      show "length (bs_visited s') = n" using lv by (simp add: s'_def)
      show "R \<subseteq> rows_rel (adj_view ba adj (bs_store s'))"
        using R1 old_rows by (auto simp: s'_def v'_def[symmetric])
      show "rows_rel (adj_view ba adj (bs_store s')) \<subseteq> R\<^sup>+"
        using R2' by (simp add: s'_def v'_def[symmetric])
      show "start \<in> visited_set (bs_visited s')" using sV by (simp add: s'_def V')
      show "visited_set (bs_visited s') \<subseteq> I" using VI nbI by (simp add: s'_def V')
      show "visited_set (bs_visited s') \<subseteq> R\<^sup>* `` {start}"
        using VR nbR by (simp add: s'_def V')
      show "queue_values (bs_queue s') \<subseteq> visited_set (bs_visited s')"
        using QV by (auto simp: s'_def V' Q')
      show "\<forall>a \<in> visited_set (bs_visited s') - queue_values (bs_queue s') - {cur}.
              R `` {a} \<subseteq> visited_set (bs_visited s')"
        using cl' unfolding f V' Q' .
      show "bs_count s' = int (card (visited_set (bs_visited s')))"
        using cnt' by (simp add: s'_def V')
    qed
    have pre2: "take (length row0) (bs_store s' ! na) = row0"
      using ll pre' by (simp add: s'_def app)
    have mono: "visited_set (bs_visited s) \<subseteq> visited_set (bs_visited s')"
      unfolding f V' by (auto simp: V_def vis_def)
    have here: "row0 ! i \<in> visited_set (bs_visited s')"
      unfolding f V' by (simp add: nb0)
    from inv' pre2 mono here show ?thesis unfolding e by simp
  qed
qed


lemma bfs_inv_close:
  assumes "bfs_inv ba adj n I R start X s"
    and "\<forall>a\<in>X. R `` {a} \<subseteq> visited_set (bs_visited s)"
  shows "bfs_inv ba adj n I R start {} s"
proof -
  have "\<forall>a \<in> visited_set (bs_visited s) - queue_values (bs_queue s) - {}.
          R `` {a} \<subseteq> visited_set (bs_visited s)"
  proof
    fix a assume a: "a \<in> visited_set (bs_visited s) - queue_values (bs_queue s) - {}"
    show "R `` {a} \<subseteq> visited_set (bs_visited s)"
    proof (cases "a \<in> X")
      case True
      with assms(2) show ?thesis by blast
    next
      case False
      with a have "a \<in> visited_set (bs_visited s) - queue_values (bs_queue s) - X" by simp
      with assms(1) show ?thesis unfolding bfs_inv_def by blast
    qed
  qed
  with assms(1) show ?thesis unfolding bfs_inv_def by blast
qed

lemma bfs_inv_dequeue:
  assumes "bfs_inv ba adj n I R start {} s"
    and "queue_values (bs_queue s) = insert cur (queue_values q')"
  shows "bfs_inv ba adj n I R start {cur} (s\<lparr> bs_queue := q' \<rparr>)"
proof -
  have "\<forall>a \<in> visited_set (bs_visited s) - queue_values q' - {cur}.
          R `` {a} \<subseteq> visited_set (bs_visited s)"
  proof
    fix a assume "a \<in> visited_set (bs_visited s) - queue_values q' - {cur}"
    with assms(2) have "a \<in> visited_set (bs_visited s) - queue_values (bs_queue s) - {}" by auto
    with assms(1) show "R `` {a} \<subseteq> visited_set (bs_visited s)" unfolding bfs_inv_def by blast
  qed
  moreover from assms have "queue_values q' \<subseteq> visited_set (bs_visited s)"
    unfolding bfs_inv_def by blast
  ultimately show ?thesis using assms(1) unfolding bfs_inv_def by simp
qed

definition round_inv ::
  "(int \<Rightarrow> nat list) \<Rightarrow> adjacency \<Rightarrow> nat \<Rightarrow> int set \<Rightarrow> (int \<times> int) set \<Rightarrow> int \<Rightarrow> int \<Rightarrow> nat
     \<Rightarrow> int list \<Rightarrow> nat \<Rightarrow> bfs_state \<Rightarrow> bool" where
  "round_inv ba adj n I R start cur na row0 i s \<longleftrightarrow>
     bfs_inv ba adj n I R start {cur} s \<and>
     take (length row0) (bs_store s ! na) = row0 \<and>
     cur \<in> visited_set (bs_visited s) \<and>
     (\<forall>i'<i. row0 ! i' \<in> visited_set (bs_visited s))"

lemma bfs_round_sat:
  assumes I: "I \<subseteq> {0..<int n}" and inv: "bfs_inv ba adj n I R start {} s"
    and ne: "pq_arr (bs_queue s) \<noteq> []"
  shows "res_sat (\<lambda>e. False) (bfs_inv ba adj n I R start {}) (bfs_round ba adj s)"
proof -
  from queue_values_remove_min[OF ne] obtain cur q'
    where rm: "remove_min (bs_queue s) = (Some cur, q')"
      and qv: "queue_values (bs_queue s) = insert cur (queue_values q')" by blast
  define s0 where "s0 = s\<lparr> bs_queue := q' \<rparr>"
  define v where "v = adj_view ba adj (bs_store s)"
  from inv have ro: "rows_ok ba adj (bs_store s) I" and R1: "R \<subseteq> rows_rel v"
    and VI: "visited_set (bs_visited s) \<subseteq> I"
    and QV: "queue_values (bs_queue s) \<subseteq> visited_set (bs_visited s)"
    by (simp_all add: bfs_inv_def v_def)
  from qv QV have curV: "cur \<in> visited_set (bs_visited s)" by auto
  with VI have "cur \<in> I" by auto
  with ro have "cur \<in> dom v" by (simp add: rows_ok_def v_def)
  then obtain na where lk: "m_lookup ba adj cur = Some na"
    by (auto simp: v_def adj_view_def)
  define row0 where "row0 = bs_store s ! na"
  from lk have vcur: "v cur = Some row0" by (simp add: v_def adj_view_def row0_def)
  have e: "bfs_round ba adj s = for_loop [0..<length row0] (visit_neighbour ba adj na) s0"
    by (simp add: bfs_round_def rm m_find_lookup lk row0_def s0_def)
  have inv0: "bfs_inv ba adj n I R start {cur} s0"
    unfolding s0_def by (rule bfs_inv_dequeue[OF inv qv])
  have loop: "res_sat (\<lambda>e. False) (round_inv ba adj n I R start cur na row0 (length row0))
           (for_loop [0..<length row0] (visit_neighbour ba adj na) s0)"
  proof (rule for_loop_upt_sat)
    show "round_inv ba adj n I R start cur na row0 0 s0"
      using inv0 curV by (simp add: round_inv_def) (simp add: s0_def row0_def)
    show "0 \<le> length row0" by simp
  next
    fix i s1
    assume i: "i < length row0" and r: "round_inv ba adj n I R start cur na row0 i s1"
    from r have inv1: "bfs_inv ba adj n I R start {cur} s1"
      and pre1: "take (length row0) (bs_store s1 ! na) = row0"
      and cur1: "cur \<in> visited_set (bs_visited s1)"
      and done1: "\<forall>i'<i. row0 ! i' \<in> visited_set (bs_visited s1)"
      by (simp_all add: round_inv_def)
    show "res_sat (\<lambda>e. False) (round_inv ba adj n I R start cur na row0 (Suc i))
            (visit_neighbour ba adj na i s1)"
    proof (rule res_sat_mono[OF visit_neighbour_sat[OF I inv1 cur1 lk i pre1]])
      fix s2
      assume a: "bfs_inv ba adj n I R start {cur} s2 \<and>
                 take (length row0) (bs_store s2 ! na) = row0 \<and>
                 visited_set (bs_visited s1) \<subseteq> visited_set (bs_visited s2) \<and>
                 row0 ! i \<in> visited_set (bs_visited s2)"
      then have mono: "visited_set (bs_visited s1) \<subseteq> visited_set (bs_visited s2)"
        and here: "row0 ! i \<in> visited_set (bs_visited s2)" by simp_all
      have "\<forall>i'<Suc i. row0 ! i' \<in> visited_set (bs_visited s2)"
      proof (intro allI impI)
        fix i' assume "i' < Suc i"
        then have "i' < i \<or> i' = i" by auto
        with done1 mono here show "row0 ! i' \<in> visited_set (bs_visited s2)" by blast
      qed
      with a cur1 mono show "round_inv ba adj n I R start cur na row0 (Suc i) s2"
        by (auto simp: round_inv_def)
    qed simp
  qed
  show ?thesis
    unfolding e
  proof (rule res_sat_mono[OF loop])
    fix s2
    assume r: "round_inv ba adj n I R start cur na row0 (length row0) s2"
    then have inv2: "bfs_inv ba adj n I R start {cur} s2"
      and all: "\<forall>i'<length row0. row0 ! i' \<in> visited_set (bs_visited s2)"
      by (simp_all add: round_inv_def)
    have "R `` {cur} \<subseteq> visited_set (bs_visited s2)"
    proof
      fix x assume "x \<in> R `` {cur}"
      then have "(cur, x) \<in> rows_rel v" using R1 by auto
      with vcur have "x \<in> set row0" by (auto simp: rows_rel_def)
      then obtain i' where "i' < length row0" "x = row0 ! i'" by (auto simp: in_set_conv_nth)
      with all show "x \<in> visited_set (bs_visited s2)" by blast
    qed
    then have "\<forall>a\<in>{cur}. R `` {a} \<subseteq> visited_set (bs_visited s2)" by simp
    from bfs_inv_close[OF inv2 this] show "bfs_inv ba adj n I R start {} s2" .
  qed simp
qed

lemma bfs_while_sat:
  assumes I: "I \<subseteq> {0..<int n}"
  shows "bfs_inv ba adj n I R start {} s \<Longrightarrow>
    res_sat (\<lambda>e. False) (\<lambda>s'. bfs_inv ba adj n I R start {} s' \<and> pq_arr (bs_queue s') = [])
      (bfs_while ba adj s)"
proof (induction ba adj s rule: bfs_while.induct)
  case (1 ba adj s)
  note IH = 1(1) and inv = 1(2)
  show ?case
  proof (cases "pq_get_size (bs_queue s) > 0")
    case False
    then have "pq_arr (bs_queue s) = []" by (simp add: pq_get_size_def)
    with inv False show ?thesis by (subst bfs_while.simps) simp
  next
    case True
    then have ne: "pq_arr (bs_queue s) \<noteq> []" by (auto simp: pq_get_size_def)
    from res_sat_no_error[OF bfs_round_sat[OF I inv ne]] obtain s'
      where r: "bfs_round ba adj s = Some (Inr s')" and inv': "bfs_inv ba adj n I R start {} s'"
      by blast
    from IH[OF True r refl inv'] True r show ?thesis
      by (subst bfs_while.simps) simp
  qed
qed

lemma closed_reach:
  assumes "start \<in> V" "V \<subseteq> R\<^sup>* `` {start}" "\<forall>a\<in>V. R `` {a} \<subseteq> V"
  shows "V = R\<^sup>* `` {start}"
proof
  show "V \<subseteq> R\<^sup>* `` {start}" by (rule assms(2))
  show "R\<^sup>* `` {start} \<subseteq> V"
  proof
    fix x assume "x \<in> R\<^sup>* `` {start}"
    then have "(start, x) \<in> R\<^sup>*" by simp
    then show "x \<in> V"
    proof (induction rule: rtrancl_induct)
      case base
      show ?case by (rule assms(1))
    next
      case (step y z)
      with assms(3) show ?case by blast
    qed
  qed
qed

lemma bfs_for_compounds_sat:
  assumes I: "I \<subseteq> {0..<int n}" and ro: "rows_ok ba adj st I" and start: "start \<in> I"
  shows "res_sat (\<lambda>e. False)
     (\<lambda>(c, st'). rows_ok ba adj st' I \<and>
        rows_rel (adj_view ba adj st) \<subseteq> rows_rel (adj_view ba adj st') \<and>
        rows_rel (adj_view ba adj st') \<subseteq> (rows_rel (adj_view ba adj st))\<^sup>+ \<and>
        c = int (card ((rows_rel (adj_view ba adj st))\<^sup>* `` {start})))
     (bfs_for_compounds ba adj n st start)"
proof -
  define R where "R = rows_rel (adj_view ba adj st)"
  from I start have rng: "0 \<le> start" "start < int (length (replicate n False))" by auto
  define vis0 where "vis0 = (replicate n False)[nat start := True]"
  have set: "da_set_at (replicate n False) start True = ok vis0"
    using rng by (simp add: da_set_at_def vis0_def)
  define s0 where "s0 = \<lparr> bs_store = st, bs_visited = vis0,
     bs_queue = insert_fifo PriorityQueue_init start, bs_count = 1 \<rparr>"
  have e: "bfs_for_compounds ba adj n st start =
             bind_res (bfs_while ba adj s0) (\<lambda>s. ok (bs_count s, bs_store s))"
    by (simp add: bfs_for_compounds_def Let_def set s0_def) (simp add: bind_res_def ok_def)
  have V0: "visited_set vis0 = {start}"
    unfolding vis0_def by (simp only: visited_set_update[OF rng] visited_set_replicate)
  have Q0: "queue_values (insert_fifo PriorityQueue_init start) = {start}"
    by (simp add: queue_values_insert_fifo) (simp add: queue_values_def PriorityQueue_init_def)
  have f: "bs_store s0 = st" "bs_visited s0 = vis0"
    "bs_queue s0 = insert_fifo PriorityQueue_init start" "bs_count s0 = 1"
    by (simp_all add: s0_def)
  have inv0: "bfs_inv ba adj n I R start {} s0"
    unfolding bfs_inv_def f V0 Q0 R_def[symmetric]
    using ro start by (auto simp: vis0_def)
  show ?thesis
    unfolding e
  proof (rule res_sat_bind[OF bfs_while_sat[OF I inv0]])
    fix s1
    assume a: "bfs_inv ba adj n I R start {} s1 \<and> pq_arr (bs_queue s1) = []"
    then have inv1: "bfs_inv ba adj n I R start {} s1" and "pq_arr (bs_queue s1) = []"
      by simp_all
    then have Q1: "queue_values (bs_queue s1) = {}" by (simp add: queue_values_def)
    define V where "V = visited_set (bs_visited s1)"
    from inv1 have "start \<in> V" "V \<subseteq> R\<^sup>* `` {start}" "\<forall>a\<in>V. R `` {a} \<subseteq> V"
      unfolding bfs_inv_def Q1 V_def by simp_all
    then have "V = R\<^sup>* `` {start}" by (rule closed_reach)
    with inv1 have "bs_count s1 = int (card (R\<^sup>* `` {start}))"
      by (simp add: bfs_inv_def V_def)
    with inv1 show "res_sat (\<lambda>e. False)
       (\<lambda>(c, st'). rows_ok ba adj st' I \<and>
        rows_rel (adj_view ba adj st) \<subseteq> rows_rel (adj_view ba adj st') \<and>
        rows_rel (adj_view ba adj st') \<subseteq> (rows_rel (adj_view ba adj st))\<^sup>+ \<and>
        c = int (card ((rows_rel (adj_view ba adj st))\<^sup>* `` {start})))
       (ok (bs_count s1, bs_store s1))"
      by (simp add: bfs_inv_def R_def)
  qed
qed

section \<open>chain\_reaction: choosing the origin\<close>

definition reach :: "(int \<times> int) set \<Rightarrow> int \<Rightarrow> int" where
  "reach R a = int (card (R\<^sup>* `` {a}))"

definition best :: "compound list \<Rightarrow> (int \<times> int) set \<Rightarrow> nat \<Rightarrow> int \<Rightarrow> int \<Rightarrow> bool" where
  "best cs R i mc mr \<longleftrightarrow>
     (if i = 0 then mc = - 1 \<and> mr = - 1
      else (\<exists>j<i. mc = cid_at cs j) \<and> reach R mc = mr \<and>
           (\<forall>j<i. reach R (cid_at cs j) \<le> mr \<and>
                  (reach R (cid_at cs j) = mr \<longrightarrow> mc \<le> cid_at cs j)))"

lemma reach_nonneg: "0 \<le> reach R a"
  by (simp add: reach_def)

lemma best_step:
  assumes b: "best cs R i mc mr" and c: "c = reach R (cid_at cs i)"
  shows "best cs R (Suc i)
     (if c > mr then cid_at cs i else if c = mr then min mc (cid_at cs i) else mc)
     (if c > mr then c else mr)"
proof (cases "i = 0")
  case True
  with b have "mr = - 1" by (simp add: best_def)
  with reach_nonneg[of R "cid_at cs i"] c have gt: "c > mr" by simp
  with True c show ?thesis by (simp add: best_def)
next
  case False
  with b obtain j0 where j0: "j0 < i" "mc = cid_at cs j0" and rm: "reach R mc = mr"
    and all: "\<forall>j<i. reach R (cid_at cs j) \<le> mr \<and>
                  (reach R (cid_at cs j) = mr \<longrightarrow> mc \<le> cid_at cs j)"
    by (auto simp: best_def)
  consider "c > mr" | "c = mr" | "c < mr" by linarith
  then show ?thesis
  proof cases
    case 1
    have "\<exists>j<Suc i. cid_at cs i = cid_at cs j" by auto
    moreover have "reach R (cid_at cs i) = c" by (simp add: c)
    moreover have "\<forall>j<Suc i. reach R (cid_at cs j) \<le> c \<and>
                  (reach R (cid_at cs j) = c \<longrightarrow> cid_at cs i \<le> cid_at cs j)"
    proof (intro allI impI)
      fix j assume "j < Suc i"
      then consider "j < i" | "j = i" by linarith
      then show "reach R (cid_at cs j) \<le> c \<and>
                  (reach R (cid_at cs j) = c \<longrightarrow> cid_at cs i \<le> cid_at cs j)"
      proof cases
        case 1
        with all have "reach R (cid_at cs j) \<le> mr" by blast
        with \<open>c > mr\<close> show ?thesis by simp
      next
        case 2
        then show ?thesis by (simp add: c)
      qed
    qed
    ultimately show ?thesis using 1 by (simp add: best_def)
  next
    case 2
    have "\<exists>j<Suc i. min mc (cid_at cs i) = cid_at cs j"
    proof (cases "mc \<le> cid_at cs i")
      case True
      then have "min mc (cid_at cs i) = cid_at cs j0" by (simp add: j0)
      with j0(1) show ?thesis by (intro exI[of _ j0]) simp
    next
      case False
      then have "min mc (cid_at cs i) = cid_at cs i" by simp
      then show ?thesis by (intro exI[of _ i]) simp
    qed
    moreover have "reach R (min mc (cid_at cs i)) = mr"
      using rm 2 c by (simp add: min_def)
    moreover have "\<forall>j<Suc i. reach R (cid_at cs j) \<le> mr \<and>
                  (reach R (cid_at cs j) = mr \<longrightarrow> min mc (cid_at cs i) \<le> cid_at cs j)"
    proof (intro allI impI)
      fix j assume "j < Suc i"
      then consider "j < i" | "j = i" by linarith
      then show "reach R (cid_at cs j) \<le> mr \<and>
                  (reach R (cid_at cs j) = mr \<longrightarrow> min mc (cid_at cs i) \<le> cid_at cs j)"
      proof cases
        case 1
        with all show ?thesis by (auto simp: min_def)
      next
        case 2
        with \<open>c = mr\<close> c show ?thesis by simp
      qed
    qed
    ultimately show ?thesis using 2 by (simp add: best_def)
  next
    case 3
    have "\<exists>j<Suc i. mc = cid_at cs j" using j0 by (intro exI[of _ j0]) simp
    moreover have "\<forall>j<Suc i. reach R (cid_at cs j) \<le> mr \<and>
                  (reach R (cid_at cs j) = mr \<longrightarrow> mc \<le> cid_at cs j)"
    proof (intro allI impI)
      fix j assume "j < Suc i"
      then consider "j < i" | "j = i" by linarith
      then show "reach R (cid_at cs j) \<le> mr \<and>
                  (reach R (cid_at cs j) = mr \<longrightarrow> mc \<le> cid_at cs j)"
      proof cases
        case 1
        with all show ?thesis by blast
      next
        case 2
        with \<open>c < mr\<close> c show ?thesis by simp
      qed
    qed
    ultimately show ?thesis using 3 rm by (simp add: best_def)
  qed
qed

lemma trancl_sub:
  assumes "S \<subseteq> R\<^sup>+"
  shows "S\<^sup>+ \<subseteq> R\<^sup>+"
proof
  fix p assume "p \<in> S\<^sup>+"
  then obtain x y where p: "p = (x, y)" and "(x, y) \<in> S\<^sup>+" by (cases p) auto
  from this(2) have "(x, y) \<in> R\<^sup>+"
  proof (induction rule: trancl_induct)
    case (base y)
    with assms show ?case by auto
  next
    case (step y z)
    with assms have "(y, z) \<in> R\<^sup>+" by auto
    with step.IH show ?case by (rule trancl_trans)
  qed
  with p show "p \<in> R\<^sup>+" by simp
qed

lemma rtrancl_between:
  assumes "R \<subseteq> S" "S \<subseteq> R\<^sup>+"
  shows "S\<^sup>* = R\<^sup>*"
proof
  from rtrancl_mono[OF assms(2)] show "S\<^sup>* \<subseteq> R\<^sup>*" by simp
  from rtrancl_mono[OF assms(1)] show "R\<^sup>* \<subseteq> S\<^sup>*" .
qed

definition main_inv ::
  "(int \<Rightarrow> nat list) \<Rightarrow> adjacency \<Rightarrow> compound list \<Rightarrow> (int \<times> int) set \<Rightarrow> nat
     \<Rightarrow> store \<times> int \<times> int \<Rightarrow> bool" where
  "main_inv ba adj cs R0 i s \<longleftrightarrow>
     (case s of (st, mc, mr) \<Rightarrow>
        rows_ok ba adj st (ids cs) \<and> R0 \<subseteq> rows_rel (adj_view ba adj st) \<and>
        rows_rel (adj_view ba adj st) \<subseteq> R0\<^sup>+ \<and> best cs R0 i mc mr)"

lemma try_origin_sat:
  assumes I: "ids cs \<subseteq> {0..<int (length cs)}" and i: "i < length cs"
    and inv: "main_inv ba adj cs R0 i s"
  shows "res_sat (\<lambda>e. False) (main_inv ba adj cs R0 (Suc i)) (try_origin ba adj cs i s)"
proof -
  obtain st mc mr where s: "s = (st, mc, mr)" by (cases s)
  from inv s have ro: "rows_ok ba adj st (ids cs)"
    and R1: "R0 \<subseteq> rows_rel (adj_view ba adj st)"
    and R2: "rows_rel (adj_view ba adj st) \<subseteq> R0\<^sup>+"
    and b: "best cs R0 i mc mr"
    by (simp_all add: main_inv_def)
  have start: "cid_at cs i \<in> ids cs" by (rule cid_at_ids[OF i])
  have e: "try_origin ba adj cs i s =
     bind_res (bfs_for_compounds ba adj (length cs) st (cid_at cs i))
       (\<lambda>(c, st').
          if c > mr then ok (st', cid_at cs i, c)
          else if c = mr then ok (st', min mc (cid_at cs i), mr)
          else ok (st', mc, mr))"
    by (simp only: try_origin_def s Let_def cid_at_def prod.case)
  show ?thesis
    unfolding e
  proof (rule res_sat_bind[OF bfs_for_compounds_sat[OF I ro start]])
    fix x :: "int \<times> store"
    obtain c st' where x: "x = (c, st')" by (cases x)
    assume "case x of (c, st') \<Rightarrow> rows_ok ba adj st' (ids cs) \<and>
        rows_rel (adj_view ba adj st) \<subseteq> rows_rel (adj_view ba adj st') \<and>
        rows_rel (adj_view ba adj st') \<subseteq> (rows_rel (adj_view ba adj st))\<^sup>+ \<and>
        c = int (card ((rows_rel (adj_view ba adj st))\<^sup>* `` {cid_at cs i}))"
    from this[unfolded x prod.case] have ro': "rows_ok ba adj st' (ids cs)"
      and S1: "rows_rel (adj_view ba adj st) \<subseteq> rows_rel (adj_view ba adj st')"
      and S2: "rows_rel (adj_view ba adj st') \<subseteq> (rows_rel (adj_view ba adj st))\<^sup>+"
      and c: "c = int (card ((rows_rel (adj_view ba adj st))\<^sup>* `` {cid_at cs i}))"
      by blast+
    from rtrancl_between[OF R1 R2] c have c': "c = reach R0 (cid_at cs i)"
      by (simp add: reach_def)
    have R1': "R0 \<subseteq> rows_rel (adj_view ba adj st')" using R1 S1 by blast
    have R2': "rows_rel (adj_view ba adj st') \<subseteq> R0\<^sup>+"
      using S2 trancl_sub[OF R2] by blast
    note bs = best_step[OF b c']
    show "res_sat (\<lambda>e. False) (main_inv ba adj cs R0 (Suc i))
       (case x of (c, st') \<Rightarrow>
          if c > mr then ok (st', cid_at cs i, c)
          else if c = mr then ok (st', min mc (cid_at cs i), mr)
          else ok (st', mc, mr))"
    proof (cases "c > mr")
      case True
      with bs ro' R1' R2' show ?thesis by (simp add: x main_inv_def)
    next
      case False
      show ?thesis
      proof (cases "c = mr")
        case True
        with bs ro' R1' R2' show ?thesis by (simp add: x main_inv_def)
      next
        case F: False
        with False bs ro' R1' R2' show ?thesis by (simp add: x main_inv_def)
      qed
    qed
  qed
qed

lemma origins_loop_sat:
  assumes I: "ids cs \<subseteq> {0..<int (length cs)}" and ro: "rows_ok ba adj st (ids cs)"
  shows "res_sat (\<lambda>e. False) (main_inv ba adj cs (rows_rel (adj_view ba adj st)) (length cs))
           (for_loop [0..<length cs] (try_origin ba adj cs) (st, - 1, - 1))"
proof (rule for_loop_upt_sat)
  show "main_inv ba adj cs (rows_rel (adj_view ba adj st)) 0 (st, - 1, - 1)"
    using ro by (auto simp: main_inv_def best_def)
  show "0 \<le> length cs" by simp
next
  fix i s
  assume "i < length cs" "main_inv ba adj cs (rows_rel (adj_view ba adj st)) i s"
  then show "res_sat (\<lambda>e. False) (main_inv ba adj cs (rows_rel (adj_view ba adj st)) (Suc i))
     (try_origin ba adj cs i s)"
    by (rule try_origin_sat[OF I])
qed

lemma chain_reaction_sat:
  assumes I: "ids cs \<subseteq> {0..<int (length cs)}"
  shows "res_sat (err cs)
     (\<lambda>r. \<exists>adj st mr. outer_inv ba rt cs (length cs) (adj, st) \<and>
             best cs (rows_rel (adj_view ba adj st)) (length cs) r mr)
     (chain_reaction ba rt a b cs)"
  unfolding chain_reaction_def
proof (rule res_sat_bind[OF build_adjacency_sat])
  fix x :: "adjacency \<times> store"
  obtain adj st where x: "x = (adj, st)" by (cases x)
  assume "outer_inv ba rt cs (length cs) x"
  then have oi: "outer_inv ba rt cs (length cs) (adj, st)" by (simp add: x)
  from built_rows_ok[OF oi] have ro: "rows_ok ba adj st (ids cs)" .
  have "res_sat (err cs)
     (\<lambda>r. \<exists>adj st mr. outer_inv ba rt cs (length cs) (adj, st) \<and>
             best cs (rows_rel (adj_view ba adj st)) (length cs) r mr)
     (bind_res (for_loop [0..<length cs] (try_origin ba adj cs) (st, - 1, - 1))
        (\<lambda>(st', max_compound, max_reactions). ok max_compound))"
  proof (rule res_sat_bind[OF res_sat_mono[OF origins_loop_sat[OF I ro]]])
    show "err cs e" if "False" for e using that by simp
    show "main_inv ba adj cs (rows_rel (adj_view ba adj st)) (length cs) s" 
      if "main_inv ba adj cs (rows_rel (adj_view ba adj st)) (length cs) s" for s by (rule that)
  next
    fix s :: "store \<times> int \<times> int"
    obtain st' mc mr where s: "s = (st', mc, mr)" by (cases s)
    assume "main_inv ba adj cs (rows_rel (adj_view ba adj st)) (length cs) s"
    with s have "best cs (rows_rel (adj_view ba adj st)) (length cs) mc mr"
      by (simp add: main_inv_def)
    with oi show "res_sat (err cs)
     (\<lambda>r. \<exists>adj st mr. outer_inv ba rt cs (length cs) (adj, st) \<and>
             best cs (rows_rel (adj_view ba adj st)) (length cs) r mr)
     (case s of (st', max_compound, max_reactions) \<Rightarrow> ok max_compound)"
      by (auto simp: s)
  qed
  then show "res_sat (err cs)
     (\<lambda>r. \<exists>adj st mr. outer_inv ba rt cs (length cs) (adj, st) \<and>
             best cs (rows_rel (adj_view ba adj st)) (length cs) r mr)
     (case x of (adj, st) \<Rightarrow>
        bind_res (for_loop [0..<length cs] (try_origin ba adj cs) (st, - 1, - 1))
          (\<lambda>(st', max_compound, max_reactions). ok max_compound))"
    by (simp add: x)
qed

section \<open>chain\_reaction: the result\<close>









text \<open>
  The example of the specification: three collinear compounds, the first reaches the
  second, the second reaches the third, the first does not reach the third.
\<close>

definition euclid :: "int \<Rightarrow> real" where
  "euclid z = sqrt (of_int z)"

definition three_compounds :: "compound list" where
  "three_compounds =
     [\<lparr> c_x = 0, c_y = 0, c_r = 1, c_cid = 0 \<rparr>,
      \<lparr> c_x = 1, c_y = 0, c_r = 1, c_cid = 1 \<rparr>,
      \<lparr> c_x = 2, c_y = 0, c_r = 0, c_cid = 2 \<rparr>]"





text \<open>
  Claim C10. The propagation reads and writes the \<open>visited\<close> sequence of length \<open>n\<close> at the
  position given by a compound identifier; the model reports a position outside the
  sequence as \<open>IndexError\<close>, and nothing catches it. When every identifier of the list
  lies in \<open>0..n-1\<close> no call of \<open>chain_reaction\<close> ends in \<open>IndexError\<close>: it returns a value (or
  fails in the adjacency map for more than 501 compounds), so every access was within
  bounds. The condition is not checked: when the identifier of the first compound lies
  outside the range, the first propagation accesses the sequence out of bounds.
\<close>

theorem visited_accesses_in_bounds:
  "(c_cid ` set cs \<subseteq> {0..<int (length cs)} \<longrightarrow>
      (\<exists>r. chain_reaction ba rt a b cs = Some (Inr r)) \<or>
      (chain_reaction ba rt a b cs = Some (Inl ScheduleExhausted) \<and> 501 < length cs))
   \<and> (ds \<noteq> [] \<and> length ds \<le> 501 \<and> c_cid (ds ! 0) \<notin> {0..<int (length ds)} \<longrightarrow>
      chain_reaction ba rt a b ds = Some (Inl IndexError))"
proof (intro conjI impI)
  assume "c_cid ` set cs \<subseteq> {0..<int (length cs)}"
  then have I: "ids cs \<subseteq> {0..<int (length cs)}" by (simp add: ids_def)
  from res_sat_cases[OF chain_reaction_sat[OF I, where ba = ba and rt = rt and a = a and b = b]]
  show "(\<exists>r. chain_reaction ba rt a b cs = Some (Inr r)) \<or>
        (chain_reaction ba rt a b cs = Some (Inl ScheduleExhausted) \<and> 501 < length cs)"
    by (auto simp: err_def)
next
  assume a: "ds \<noteq> [] \<and> length ds \<le> 501 \<and> c_cid (ds ! 0) \<notin> {0..<int (length ds)}"
  from res_sat_cases[OF build_adjacency_sat[where cs = ds and ba = ba and rt = rt and a = a and b = b]] a
  obtain adj st where bd: "build_adjacency ba rt a b ds = Some (Inr (adj, st))"
    by (auto simp: err_def)
  from a have u: "[0..<length ds] = 0 # [1..<length ds]" by (simp add: upt_conv_Cons)
  from a have out: "\<not> (0 \<le> c_cid (ds ! 0) \<and> c_cid (ds ! 0) < int (length ds))" by simp
  from out have "da_set_at (replicate (length ds) False) (c_cid (ds ! 0)) True = raise IndexError"
    by (auto simp: da_set_at_def)
  then have "bfs_for_compounds ba adj (length ds) st (c_cid (ds ! 0)) = Some (Inl IndexError)"
    by (simp add: bfs_for_compounds_def Let_def bind_res_def raise_def)
  then have "try_origin ba adj ds 0 (st, - 1, - 1) = Some (Inl IndexError)"
    by (simp add: try_origin_def Let_def get_compound_id_def bind_res_def)
  then have "for_loop [0..<length ds] (try_origin ba adj ds) (st, - 1, - 1) = Some (Inl IndexError)"
    unfolding u by (simp add: bind_res_def)
  with bd show "chain_reaction ba rt a b ds = Some (Inl IndexError)"
    by (simp add: chain_reaction_def bind_res_def)
qed

theorem visited_accesses_in_bounds_witness:
  "c_cid ` set three_compounds \<subseteq> {0..<int (length three_compounds)} \<and>
   (\<exists>r. chain_reaction (\<lambda>k. [nat k]) euclid 1 0 three_compounds = Some (Inr r)) \<and>
   [\<lparr> c_x = 0, c_y = 0, c_r = 1, c_cid = 1 \<rparr>] \<noteq> [] \<and>
   length [\<lparr> c_x = 0, c_y = 0, c_r = 1, c_cid = 1 \<rparr>] \<le> 501 \<and>
   c_cid ([\<lparr> c_x = 0, c_y = 0, c_r = 1, c_cid = 1 \<rparr>] ! 0)
      \<notin> {0..<int (length [\<lparr> c_x = 0, c_y = 0, c_r = 1, c_cid = 1 \<rparr>])} \<and>
   chain_reaction (\<lambda>k. [nat k]) euclid 1 0 [\<lparr> c_x = 0, c_y = 0, c_r = 1, c_cid = 1 \<rparr>]
      = Some (Inl IndexError)"
proof -
  have h: "c_cid ` set three_compounds \<subseteq> {0..<int (length three_compounds)}"
    by (auto simp: three_compounds_def)
  have l: "\<not> 501 < length three_compounds" by (simp add: three_compounds_def)
  from visited_accesses_in_bounds
    [where cs = three_compounds and ba = "\<lambda>k. [nat k]" and rt = euclid
       and a = 1 and b = 0 and ds = "[\<lparr> c_x = 0, c_y = 0, c_r = 1, c_cid = 1 \<rparr>]"] h l
  show ?thesis by simp
qed

end
